theory Spec2Isabelle
  imports Main "HOL-Library.Word" "HOL-Library.Sublist" "HOL-Library.Monad_Syntax"
begin

section \<open>Deployment configuration (sdk/component/deployment.go)\<close>

text \<open>
  \<^verbatim>\<open>type DeploymentConfig struct { Id string; ServerAddr string; ServerInsecure bool }\<close>.
  The field \<^verbatim>\<open>Id\<close> is written \<open>Id'\<close>, since \<open>Id\<close> is the identity relation of HOL.
\<close>

record DeploymentConfig =
  Id' :: string
  ServerAddr :: string
  ServerInsecure :: bool

text \<open>
  \<^verbatim>\<open>Env\<close> builds a Go \<^verbatim>\<open>map[string]string\<close>: a map literal with one entry, then one or two
  stores, depending on the server address and on the insecure flag.
\<close>

definition Env :: "DeploymentConfig \<Rightarrow> (string \<rightharpoonup> string)" where
  "Env c =
     (let results = [''DEVFLOW_DEPLOYMENT_ID'' \<mapsto> Id' c] in
      if ServerAddr c = '''' then
        results(''DEVFLOW_SERVER_DISABLE'' \<mapsto> ''1'')
      else
        (let results = results(''DEVFLOW_SERVER_ADDR'' \<mapsto> ServerAddr c) in
         if ServerInsecure c then results(''DEVFLOW_SERVER_INSECURE'' \<mapsto> ''1'')
         else results))"

section \<open>Byte sources and the Go library functions the client calls\<close>

type_synonym byte = "8 word"

text \<open>
  Go \<^verbatim>\<open>error\<close> values. \<^verbatim>\<open>io.EOF\<close>, \<^verbatim>\<open>io.ErrUnexpectedEOF\<close> and \<^verbatim>\<open>io.ErrShortBuffer\<close> are the
  sentinel values of package \<^verbatim>\<open>io\<close>, compared with \<^verbatim>\<open>==\<close>; every other error is \<open>Err\<close> with
  its message. The \<^verbatim>\<open>nil\<close> error is \<open>None\<close> of \<open>error option\<close>.
\<close>

datatype error = EOF | ErrUnexpectedEOF | ErrShortBuffer | Err string

text \<open>The \<^verbatim>\<open>Error()\<close> method, which \<^verbatim>\<open>%s\<close> prints.\<close>

fun Error :: "error \<Rightarrow> string" where
  "Error EOF = ''EOF''"
| "Error ErrUnexpectedEOF = ''unexpected EOF''"
| "Error ErrShortBuffer = ''short buffer''"
| "Error (Err msg) = msg"

text \<open>
  An \<^verbatim>\<open>io.Reader\<close> is an object with a method \<^verbatim>\<open>Read(p []byte) (n int, err error)\<close>. It is
  modelled by a state \<open>'s\<close> and a function of the state and of \<^verbatim>\<open>len(p)\<close>, which returns the
  bytes stored in \<^verbatim>\<open>p[0:n]\<close>, the error, and the next state. A reader may deliver any number
  of bytes per call, fail, or go on for ever.
\<close>

type_synonym 's Reader = "'s \<Rightarrow> nat \<Rightarrow> (byte list \<times> error option) \<times> 's"

text \<open>
  The contract of \<^verbatim>\<open>Read\<close>: \<^verbatim>\<open>0 <= n <= len(p)\<close>, a read stores no more bytes than it has
  room for. The \<^verbatim>\<open>Read\<close> of \<^verbatim>\<open>*os.File\<close> keeps it. With a reader that broke it, Go would panic
  on the slice \<^verbatim>\<open>buf[:n]\<close>; the model does not follow such a reader, and what is proved about
  the size of a frame assumes \<open>conforms\<close>.
\<close>

definition conforms :: "'s Reader \<Rightarrow> bool" where
  "conforms rd \<longleftrightarrow> (\<forall>s cap. length (fst (fst (rd s cap))) \<le> cap)"

text \<open>
  \<^verbatim>\<open>io.ReadAtLeast\<close> of the Go standard library:
  \<^verbatim>\<open>
  if len(buf) < min { return 0, ErrShortBuffer }
  for n < min && err == nil {
      var nn int
      nn, err = r.Read(buf[n:])
      n += nn
  }
  if n >= min { err = nil } else if n > 0 && err == EOF { err = ErrUnexpectedEOF }
  return
  \<close>
  \<open>got\<close> is the contents of \<^verbatim>\<open>buf[0:n]\<close>. The loop need not end: a reader may return no
  byte and no error for ever, so the loop is a partial function and \<open>None\<close> stands for a
  call that never returns.
\<close>

partial_function (option) ReadAtLeast_loop ::
  "'s Reader \<Rightarrow> nat \<Rightarrow> nat \<Rightarrow> 's \<Rightarrow> byte list \<Rightarrow> error option
     \<Rightarrow> (byte list \<times> error option \<times> 's) option" where
  "ReadAtLeast_loop rd len_buf mn s got err =
     (if length got < mn \<and> err = None then
        (let r = rd s (len_buf - length got) in
         ReadAtLeast_loop rd len_buf mn (snd r) (got @ fst (fst r)) (snd (fst r)))
      else Some (got, err, s))"

definition ReadAtLeast ::
  "'s Reader \<Rightarrow> nat \<Rightarrow> nat \<Rightarrow> 's \<Rightarrow> (byte list \<times> error option \<times> 's) option" where
  "ReadAtLeast rd len_buf mn s =
     (if len_buf < mn then Some ([], Some ErrShortBuffer, s)
      else
        do {
          (got, err, s') \<leftarrow> ReadAtLeast_loop rd len_buf mn s [] None;
          Some (got,
                if length got \<ge> mn then None
                else if length got > 0 \<and> err = Some EOF then Some ErrUnexpectedEOF
                else err,
                s')
        })"

text \<open>\<^verbatim>\<open>io.ReadFull(r, buf)\<close> is \<^verbatim>\<open>ReadAtLeast(r, buf, len(buf))\<close>.\<close>

definition ReadFull :: "'s Reader \<Rightarrow> nat \<Rightarrow> 's \<Rightarrow> (byte list \<times> error option \<times> 's) option" where
  "ReadFull rd len_buf s = ReadAtLeast rd len_buf len_buf s"

section \<open>The restore command (internal/cli/snapshot\_restore.go)\<close>

text \<open>
  The messages of the client stream: \<^verbatim>\<open>RestoreSnapshotRequest_Open_\<close> has no payload,
  \<^verbatim>\<open>RestoreSnapshotRequest_Chunk\<close> carries bytes. The client makes two kinds of call on the
  stream: \<^verbatim>\<open>Send\<close> of a message, and \<^verbatim>\<open>CloseAndRecv\<close>, which half-closes the client side and
  blocks until the server's result arrives.
\<close>

datatype RestoreSnapshotRequest = Open | Chunk "byte list"

datatype call = Send RestoreSnapshotRequest | CloseAndRecv

text \<open>
  What \<^verbatim>\<open>Run\<close> finds around it. \<^verbatim>\<open>baseCommand.Init\<close>, the project's client and the generated
  gRPC stream are declared outside the files modelled here, so their results are parameters:
  \<^item> \<open>Init_err\<close>: the error of \<^verbatim>\<open>c.Init(...)\<close>;
  \<^item> \<open>Stdin\<close>, \<open>IsTerminal\<close>: the state of \<^verbatim>\<open>os.Stdin\<close>, and \<^verbatim>\<open>sshterm.IsTerminal\<close> of it;
  \<^item> \<open>os_Open\<close>: \<^verbatim>\<open>os.Open\<close>, an error or the state of the opened file;
  \<^item> \<open>Read\<close>: the \<^verbatim>\<open>Read\<close> method of \<^verbatim>\<open>*os.File\<close> (both readers of \<^verbatim>\<open>Run\<close> are files);
  \<^item> \<open>RestoreSnapshot_err\<close>: the error of \<^verbatim>\<open>client.RestoreSnapshot(c.Ctx)\<close>;
  \<^item> \<open>Send_err\<close>: the error of a \<^verbatim>\<open>Send\<close>, which may depend on the calls made before it;
  \<^item> \<open>CloseAndRecv_err\<close>: the error of \<^verbatim>\<open>CloseAndRecv\<close>, likewise.
\<close>

record 's World =
  Init_err :: "error option"
  Stdin :: 's
  IsTerminal :: bool
  os_Open :: "string \<Rightarrow> error + 's"
  Read :: "'s Reader"
  RestoreSnapshot_err :: "error option"
  Send_err :: "call list \<Rightarrow> RestoreSnapshotRequest \<Rightarrow> error option"
  CloseAndRecv_err :: "call list \<Rightarrow> error option"

text \<open>
  A \<^verbatim>\<open>*os.File\<close>: \<^verbatim>\<open>os.Stdin\<close> or a file that \<^verbatim>\<open>os.Open\<close> returned, with the state of its
  reader. \<^verbatim>\<open>Run\<close> compares the reader with \<^verbatim>\<open>os.Stdin\<close>, hence the two constructors.
\<close>

datatype 's File = StdinFile 's | OpenedFile 's

fun state :: "'s File \<Rightarrow> 's" where
  "state (StdinFile s) = s"
| "state (OpenedFile s) = s"

fun is_Stdin :: "'s File \<Rightarrow> bool" where
  "is_Stdin (StdinFile s) = True"
| "is_Stdin (OpenedFile s) = False"

text \<open>
  \<^verbatim>\<open>initReader\<close> returns \<^verbatim>\<open>(io.Reader, io.Closer, error)\<close>: here an error, or the reader with
  the closer (\<open>None\<close> is the \<^verbatim>\<open>nil\<close> closer).
\<close>

definition initReader :: "'s World \<Rightarrow> string list \<Rightarrow> error + ('s File \<times> 's File option)" where
  "initReader w args =
     (if length args \<ge> 1 then
        (if args ! 0 = ''-'' then Inr (StdinFile (Stdin w), None)
         else
           (case os_Open w (args ! 0) of
              Inl err \<Rightarrow> Inl err
            | Inr f \<Rightarrow> Inr (OpenedFile f, Some (OpenedFile f))))
      else if IsTerminal w then
        Inl (Err ''stdin is a terminal, refusing to use (use '-' to force)'')
      else Inr (StdinFile (Stdin w), None))"

text \<open>
  What a run leaves behind: the exit status, the lines written to standard error and to
  the UI, the calls made on the stream in order (a \<^verbatim>\<open>Send\<close> that returned an error is a call
  too, the last one of its run), whether the deferred \<^verbatim>\<open>closer.Close()\<close> ran, and, as a log
  for the proofs, the pair \<^verbatim>\<open>(n, err)\<close> that each call of \<^verbatim>\<open>io.ReadFull\<close> returned.
\<close>

record Outcome =
  status :: int
  stderr :: "string list"
  ui_Output :: "string list"
  calls :: "call list"
  closed :: bool
  fills :: "(nat \<times> error option) list"

text \<open>
  The loop of \<^verbatim>\<open>Run\<close>, with \<^verbatim>\<open>var buf [1024]byte\<close>:
  \<^verbatim>\<open>
  for {
      n, err := io.ReadFull(r, buf[:])
      if err == io.EOF || err == io.ErrUnexpectedEOF { err = nil }
      if n == 0 { break }
      err = stream.Send(&pb.RestoreSnapshotRequest{Event: &pb.RestoreSnapshotRequest_Chunk{Chunk: buf[:n]}})
      if err != nil { fmt.Fprintf(os.Stderr, "failed to write snapshot data: %s", err); return 1 }
  }
  \<close>
  The result is \<open>None\<close> in the first component after \<^verbatim>\<open>break\<close> and the error of the \<^verbatim>\<open>Send\<close>
  after \<^verbatim>\<open>return 1\<close>. The variable \<^verbatim>\<open>err\<close> is assigned after the read and it is not read
  again before the \<^verbatim>\<open>Send\<close> overwrites it or the loop is left: \<open>err'\<close> below is not used.
  The loop runs for ever on a source that never ends, so it is a partial function.
\<close>

partial_function (option) Run_loop ::
  "'s World \<Rightarrow> 's \<Rightarrow> call list \<Rightarrow> (nat \<times> error option) list
     \<Rightarrow> (error option \<times> call list \<times> (nat \<times> error option) list) option" where
  "Run_loop w s cs fs =
     do {
       (buf, err, s') \<leftarrow> ReadFull (Read w) 1024 s;
       let n = length buf;
           err' = (if err = Some EOF \<or> err = Some ErrUnexpectedEOF then None else err)
       in
         if n = 0 then Some (None, cs, fs @ [(n, err)])
         else
           (case Send_err w cs (Chunk buf) of
              Some e \<Rightarrow> Some (Some e, cs @ [Send (Chunk buf)], fs @ [(n, err)])
            | None \<Rightarrow> Run_loop w s' (cs @ [Send (Chunk buf)]) (fs @ [(n, err)]))
     }"

definition Run :: "'s World \<Rightarrow> string list \<Rightarrow> Outcome option" where
  "Run w args =
     (case Init_err w of
        Some err \<Rightarrow>
          Some \<lparr>status = 1, stderr = [], ui_Output = [], calls = [], closed = False, fills = []\<rparr>
      | None \<Rightarrow>
     (case initReader w args of
        Inl err \<Rightarrow>
          Some \<lparr>status = 1, stderr = [''failed to open output: '' @ Error err],
                ui_Output = [], calls = [], closed = False, fills = []\<rparr>
      | Inr (r, closer) \<Rightarrow>
     (case RestoreSnapshot_err w of
        Some err \<Rightarrow>
          Some \<lparr>status = 1, stderr = [''failed to restore snapshot: '' @ Error err],
                ui_Output = [], calls = [], closed = (closer \<noteq> None), fills = []\<rparr>
      | None \<Rightarrow>
     (case Send_err w [] Open of
        Some err \<Rightarrow>
          Some \<lparr>status = 1, stderr = [''failed to send start message: '' @ Error err],
                ui_Output = [], calls = [Send Open], closed = (closer \<noteq> None), fills = []\<rparr>
      | None \<Rightarrow>
        do {
          (err, cs, fs) \<leftarrow> Run_loop w (state r) [Send Open] [];
          (case err of
             Some e \<Rightarrow>
               Some \<lparr>status = 1, stderr = [''failed to write snapshot data: '' @ Error e],
                     ui_Output = [], calls = cs, closed = (closer \<noteq> None), fills = fs\<rparr>
           | None \<Rightarrow>
          (case CloseAndRecv_err w cs of
             Some e \<Rightarrow>
               Some \<lparr>status = 1,
                     stderr = [''failed to receive snapshot start message: '' @ Error e],
                     ui_Output = [], calls = cs @ [CloseAndRecv], closed = (closer \<noteq> None),
                     fills = fs\<rparr>
           | None \<Rightarrow>
               Some \<lparr>status = 0, stderr = [],
                     ui_Output =
                       [if is_Stdin r then ''Server data restored.''
                        else ''Server data restored from '' @ [CHR 0x27] @ args ! 0
                               @ [CHR 0x27] @ ''.''],
                     calls = cs @ [CloseAndRecv], closed = (closer \<noteq> None), fills = fs\<rparr>))
        }))))"

section \<open>Finite byte sources\<close>

text \<open>
  A source at its end answers every read with no byte and \<^verbatim>\<open>io.EOF\<close>, and stays at its end.
\<close>

coinductive drained :: "'s Reader \<Rightarrow> 's \<Rightarrow> bool" for rd :: "'s Reader" where
  drainedI:
    "(\<And>cap. 0 < cap \<Longrightarrow> \<exists>s'. rd s cap = (([], Some EOF), s') \<and> drained rd s')
     \<Longrightarrow> drained rd s"

text \<open>
  \<open>delivers rd s B\<close>: from state \<open>s\<close> on, the reader is a finite source whose remaining byte
  stream is \<open>B\<close>. Whatever room \<open>cap > 0\<close> a read is given, it returns at most \<open>cap\<close> of the
  next bytes of \<open>B\<close> (possibly none, possibly one at a time) with no error, or the last bytes
  of \<open>B\<close> together with \<^verbatim>\<open>io.EOF\<close>; after finitely many reads the source is at its end. This
  is the \<^verbatim>\<open>io.Reader\<close> contract of a source that ends and never fails. A source that fails,
  one that never ends, and one that delivers bytes again after \<^verbatim>\<open>io.EOF\<close> (a terminal, a file
  that grows) are not finite sources in this sense.
\<close>

inductive delivers :: "'s Reader \<Rightarrow> 's \<Rightarrow> byte list \<Rightarrow> bool" for rd :: "'s Reader" where
  at_end: "drained rd s \<Longrightarrow> delivers rd s []"
| more:
    "(\<And>cap. 0 < cap \<Longrightarrow>
        \<exists>bs err s'. rd s cap = ((bs, err), s') \<and> length bs \<le> cap \<and> bs = take (length bs) B
          \<and> (err = None \<or> err = Some EOF \<and> bs = B)
          \<and> delivers rd s' (drop (length bs) B))
     \<Longrightarrow> delivers rd s B"

text \<open>
  A concrete family of readers: a script of the results of the reads to come. A read is
  given the next result if it fits the room, else as many of its bytes as fit (the rest
  stays for the next read); the script over, every read returns \<^verbatim>\<open>io.EOF\<close>.
\<close>

fun script_Read :: "(byte list \<times> error option) list Reader" where
  "script_Read [] cap = (([], Some EOF), [])"
| "script_Read ((bs, err) # rest) cap =
     (if length bs \<le> cap then ((bs, err), rest)
      else ((take cap bs, None), (drop cap bs, err) # rest))"

section \<open>What the transfer is meant to send\<close>

text \<open>
  The frames of a byte stream for a buffer of \<open>k\<close> bytes, as the specification describes
  them: full buffers, then one partial buffer if bytes remain.
\<close>

function spec_frames :: "nat \<Rightarrow> byte list \<Rightarrow> byte list list" where
  "spec_frames k B = (if k = 0 \<or> B = [] then [] else take k B # spec_frames k (drop k B))"
  by pat_completeness auto
termination
  by (relation "measure (\<lambda>(k, B). length B)") auto

text \<open>
  What \<^verbatim>\<open>io.ReadFull\<close> returns for a buffer that a frame came from: the number of bytes,
  with \<^verbatim>\<open>io.ErrUnexpectedEOF\<close> when the buffer is not full.
\<close>

definition fill_of :: "byte list \<Rightarrow> nat \<times> error option" where
  "fill_of b = (length b, if length b < 1024 then Some ErrUnexpectedEOF else None)"

text \<open>
  Sending frames in order on a stream, stopping at the first \<^verbatim>\<open>Send\<close> that returns an error;
  with the log of buffer fills that goes with them (the fill after the last frame finds
  nothing and returns \<^verbatim>\<open>io.EOF\<close>).
\<close>

fun spec_send ::
  "(call list \<Rightarrow> RestoreSnapshotRequest \<Rightarrow> error option) \<Rightarrow> call list
     \<Rightarrow> (nat \<times> error option) list \<Rightarrow> byte list list
     \<Rightarrow> error option \<times> call list \<times> (nat \<times> error option) list" where
  "spec_send sendf cs fs [] = (None, cs, fs @ [(0, Some EOF)])"
| "spec_send sendf cs fs (b # bs) =
     (case sendf cs (Chunk b) of
        Some e \<Rightarrow> (Some e, cs @ [Send (Chunk b)], fs @ [fill_of b])
      | None \<Rightarrow> spec_send sendf (cs @ [Send (Chunk b)]) (fs @ [fill_of b]) bs)"

text \<open>
  The calls of a session as the specification orders them: Open, the Chunk frames of the
  byte stream in order, then the half-close that waits for the result.
\<close>

definition frame_calls :: "byte list list \<Rightarrow> call list" where
  "frame_calls bs = map (\<lambda>b. Send (Chunk b)) bs"

definition transfer_calls :: "byte list \<Rightarrow> call list" where
  "transfer_calls B = Send Open # frame_calls (spec_frames 1024 B) @ [CloseAndRecv]"

text \<open>The payloads of the Chunk frames among the calls of a run, in order.\<close>

fun payloads :: "call list \<Rightarrow> byte list list" where
  "payloads [] = []"
| "payloads (Send (Chunk b) # cs) = b # payloads cs"
| "payloads (c # cs) = payloads cs"

text \<open>
  The invariant of the send loop: no Chunk among the calls is empty, and none is longer
  than the buffer when the reader keeps the contract of \<^verbatim>\<open>Read\<close>.
\<close>

definition chunks_ok :: "'s World \<Rightarrow> call list \<Rightarrow> bool" where
  "chunks_ok w cs \<longleftrightarrow>
     (\<forall>b. Send (Chunk b) \<in> set cs \<longrightarrow> b \<noteq> [] \<and> (conforms (Read w) \<longrightarrow> length b \<le> 1024))"

section \<open>Buffer fills and the calls of a run\<close>

text \<open>
  The calls \<open>cs\<close>, made after the calls \<open>pre\<close>, replayed on the stream: \<open>sends_ok\<close> holds when
  no \<^verbatim>\<open>Send\<close> among them returned an error. Each \<^verbatim>\<open>Send\<close> is asked with the calls made before
  it, which is how \<^verbatim>\<open>Run\<close> calls the stream.
\<close>

fun sends_ok ::
  "(call list \<Rightarrow> RestoreSnapshotRequest \<Rightarrow> error option) \<Rightarrow> call list \<Rightarrow> call list \<Rightarrow> bool" where
  "sends_ok sendf pre [] = True"
| "sends_ok sendf pre (Send m # cs) = (sendf pre m = None \<and> sends_ok sendf (pre @ [Send m]) cs)"
| "sends_ok sendf pre (CloseAndRecv # cs) = sends_ok sendf (pre @ [CloseAndRecv]) cs"

text \<open>
  \<open>fills_from rd s fl s'\<close>: from state \<open>s\<close> on, the successive buffer fills
  \<^verbatim>\<open>io.ReadFull(r, buf[:])\<close> of the 1024-byte buffer return the contents and errors listed in
  \<open>fl\<close>, each with at least one byte, and leave the source in state \<open>s'\<close>. A source
  eventually yields zero new bytes when, after such fills, one more fill returns no byte:
  \<open>ReadFull rd 1024 s' = Some ([], e, s'')\<close>. Nothing is asked of the reads behind the fills:
  they may be short, fail, or deliver bytes again after \<^verbatim>\<open>io.EOF\<close>.
\<close>

inductive fills_from ::
  "'s Reader \<Rightarrow> 's \<Rightarrow> (byte list \<times> error option) list \<Rightarrow> 's \<Rightarrow> bool" for rd :: "'s Reader" where
  no_fill: "fills_from rd s [] s"
| one_more:
    "ReadFull rd 1024 s = Some (buf, err, s1) \<Longrightarrow> buf \<noteq> [] \<Longrightarrow> fills_from rd s1 fl s'
     \<Longrightarrow> fills_from rd s ((buf, err) # fl) s'"

text \<open>
  Two predicates for the proofs. \<open>loop_stops\<close>: the loop, started with the calls \<open>cs\<close>, is
  left with the result \<open>err\<close> and the calls \<open>cs'\<close> after the fills \<open>fl\<close>, one Chunk per fill,
  either by \<^verbatim>\<open>break\<close> at a fill of zero bytes with no \<^verbatim>\<open>Send\<close> failed, or by \<^verbatim>\<open>return 1\<close> at the
  \<^verbatim>\<open>Send\<close> of the last fill. \<open>run_ends\<close>: the calls and the exit status of a run that sent the
  frames \<open>bs\<close>, with the half-close when no \<^verbatim>\<open>Send\<close> failed and without it when the last one
  did.
\<close>

definition loop_stops ::
  "'s World \<Rightarrow> 's \<Rightarrow> call list \<Rightarrow> error option \<Rightarrow> call list \<Rightarrow> bool" where
  "loop_stops w s cs err cs' \<longleftrightarrow>
     (\<exists>fl s'. fills_from (Read w) s fl s' \<and> cs' = cs @ frame_calls (map fst fl)
        \<and> (case err of
              None \<Rightarrow>
                sends_ok (Send_err w) cs (frame_calls (map fst fl))
                \<and> (\<exists>e s''. ReadFull (Read w) 1024 s' = Some ([], e, s''))
            | Some e \<Rightarrow>
                fl \<noteq> []
                \<and> sends_ok (Send_err w) cs (frame_calls (map fst (butlast fl)))
                \<and> Send_err w (cs @ frame_calls (map fst (butlast fl))) (Chunk (fst (last fl)))
                    = Some e))"

definition run_ends :: "'s World \<Rightarrow> byte list list \<Rightarrow> Outcome \<Rightarrow> bool" where
  "run_ends w bs out \<longleftrightarrow>
     sends_ok (Send_err w) [] (Send Open # frame_calls bs)
       \<and> calls out = Send Open # frame_calls bs @ [CloseAndRecv]
       \<and> (status out = 0 \<longleftrightarrow> CloseAndRecv_err w (Send Open # frame_calls bs) = None)
       \<and> (status out = 0 \<or> status out = 1)
     \<or> \<not> sends_ok (Send_err w) [] (Send Open # frame_calls bs)
       \<and> sends_ok (Send_err w) [] (butlast (Send Open # frame_calls bs))
       \<and> calls out = Send Open # frame_calls bs
       \<and> status out = 1"

section \<open>Example worlds\<close>

text \<open>
  Standard input is a pipe that delivers the script \<open>sc\<close>, no file can be opened, and the
  server accepts everything.
\<close>

definition pipe_world ::
  "(byte list \<times> error option) list \<Rightarrow> (byte list \<times> error option) list World" where
  "pipe_world sc =
     \<lparr>Init_err = None, Stdin = sc, IsTerminal = False,
      os_Open = (\<lambda>p. Inl (Err (''open '' @ p @ '': no such file or directory''))),
      Read = script_Read, RestoreSnapshot_err = None,
      Send_err = (\<lambda>cs m. None), CloseAndRecv_err = (\<lambda>cs. None)\<rparr>"

text \<open>
  Standard input is a terminal, the one file \<open>name\<close> delivers the script \<open>sc\<close>, and the
  server accepts everything.
\<close>

definition file_world ::
  "string \<Rightarrow> (byte list \<times> error option) list \<Rightarrow> (byte list \<times> error option) list World" where
  "file_world name sc =
     \<lparr>Init_err = None, Stdin = [], IsTerminal = True,
      os_Open = (\<lambda>p. if p = name then Inr sc
                     else Inl (Err (''open '' @ p @ '': no such file or directory''))),
      Read = script_Read, RestoreSnapshot_err = None,
      Send_err = (\<lambda>cs m. None), CloseAndRecv_err = (\<lambda>cs. None)\<rparr>"

text \<open>
  As \<open>pipe_world\<close>, but the stream breaks after Open: every \<^verbatim>\<open>Send\<close> of a Chunk returns
  \<^verbatim>\<open>io.EOF\<close>, which is what gRPC's \<^verbatim>\<open>SendMsg\<close> returns on a stream that has ended.
\<close>

definition no_chunks_world ::
  "(byte list \<times> error option) list \<Rightarrow> (byte list \<times> error option) list World" where
  "no_chunks_world sc =
     (pipe_world sc)\<lparr>Send_err := (\<lambda>cs m. if m = Open then None else Some EOF)\<rparr>"

section \<open>Evaluation and simplification setup\<close>

declare Run_loop.simps [code] ReadAtLeast_loop.simps [code]

declare spec_frames.simps [simp del]

section \<open>Reading a finite source\<close>

text \<open>One turn of the loop of \<^verbatim>\<open>io.ReadAtLeast\<close>, and the loop on a finite source.\<close>

lemma ReadAtLeast_loop_stop:
  "\<not> (length got < mn \<and> err = None) \<Longrightarrow> ReadAtLeast_loop rd len_buf mn s got err = Some (got, err, s)"
  by (subst ReadAtLeast_loop.simps) auto

lemma ReadAtLeast_loop_step:
  "length got < mn \<Longrightarrow> rd s (len_buf - length got) = ((bs, e), s') \<Longrightarrow>
   ReadAtLeast_loop rd len_buf mn s got None = ReadAtLeast_loop rd len_buf mn s' (got @ bs) e"
  by (subst ReadAtLeast_loop.simps) simp

lemma ReadAtLeast_loop_delivers:
  assumes "delivers rd s B"
  shows "length got < m \<Longrightarrow>
         \<exists>err s'. ReadAtLeast_loop rd m m s got None
                    = Some (got @ take (m - length got) B, err, s')
           \<and> delivers rd s' (drop (m - length got) B)
           \<and> (err = None \<or> err = Some EOF)
           \<and> (length got + length B < m \<longrightarrow> err = Some EOF)"
  using assms
proof (induction arbitrary: got rule: delivers.induct)
  case (at_end s)
  from at_end.prems have pos: "0 < m - length got" by simp
  from at_end.hyps pos have "\<exists>s'. rd s (m - length got) = (([], Some EOF), s') \<and> drained rd s'"
    by (subst (asm) drained.simps) blast
  then obtain s' where
    r: "rd s (m - length got) = (([], Some EOF), s')" and d: "drained rd s'"
    by blast
  have "ReadAtLeast_loop rd m m s got None = Some (got, Some EOF, s')"
    using ReadAtLeast_loop_step [where rd = rd and s = s, OF at_end.prems r] by (simp add: ReadAtLeast_loop_stop)
  with d show ?case by (simp add: delivers.at_end)
next
  case (more s B)
  from more.prems have pos: "0 < m - length got" by simp
  from more.IH [OF pos] obtain bs err s' where
    r: "rd s (m - length got) = ((bs, err), s')"
    and len: "length bs \<le> m - length got"
    and pre: "bs = take (length bs) B"
    and e: "err = None \<or> err = Some EOF \<and> bs = B"
    and d: "delivers rd s' (drop (length bs) B)"
    and ih: "\<And>got'. length got' < m \<Longrightarrow>
         \<exists>err s''. ReadAtLeast_loop rd m m s' got' None
                    = Some (got' @ take (m - length got') (drop (length bs) B), err, s'')
           \<and> delivers rd s'' (drop (m - length got') (drop (length bs) B))
           \<and> (err = None \<or> err = Some EOF)
           \<and> (length got' + length (drop (length bs) B) < m \<longrightarrow> err = Some EOF)"
    by blast
  have step: "ReadAtLeast_loop rd m m s got None = ReadAtLeast_loop rd m m s' (got @ bs) err"
    by (rule ReadAtLeast_loop_step [where rd = rd and s = s, OF more.prems r])
  have lbs: "length bs \<le> length B"
    using pre by (metis length_take min.cobounded1)
  show ?case
  proof (cases "err = None \<and> length (got @ bs) < m")
    case True
    then have lt: "length (got @ bs) < m" and en: "err = None" by simp_all
    from ih [OF lt] obtain err2 s2 where
      l: "ReadAtLeast_loop rd m m s' (got @ bs) None
            = Some ((got @ bs) @ take (m - length (got @ bs)) (drop (length bs) B), err2, s2)"
      and d2: "delivers rd s2 (drop (m - length (got @ bs)) (drop (length bs) B))"
      and e2: "err2 = None \<or> err2 = Some EOF"
      and f2: "length (got @ bs) + length (drop (length bs) B) < m \<longrightarrow> err2 = Some EOF"
      by blast
    have split: "m - length got = length bs + (m - length (got @ bs))"
      using lt by simp
    have t: "bs @ take (m - length (got @ bs)) (drop (length bs) B) = take (m - length got) B"
    proof -
      have "take (m - length got) B = take (length bs + (m - length (got @ bs))) B"
        by (subst split) (rule refl)
      also have "\<dots> = take (length bs) B @ take (m - length (got @ bs)) (drop (length bs) B)"
        by (rule take_add)
      also have "take (length bs) B = bs"
        using pre by simp
      finally show ?thesis by simp
    qed
    have dr: "drop (m - length (got @ bs)) (drop (length bs) B) = drop (m - length got) B"
    proof -
      have "drop (m - length got) B = drop (length bs + (m - length (got @ bs))) B"
        by (subst split) (rule refl)
      then show ?thesis by (simp add: add.commute)
    qed
    from l step en t have "ReadAtLeast_loop rd m m s got None
            = Some (got @ take (m - length got) B, err2, s2)"
      by simp
    moreover from d2 dr have "delivers rd s2 (drop (m - length got) B)" by simp
    moreover from f2 lbs have "length got + length B < m \<longrightarrow> err2 = Some EOF" by simp
    ultimately show ?thesis using e2 by blast
  next
    case False
    then have "\<not> (length (got @ bs) < m \<and> err = None)"
      by blast
    then have "ReadAtLeast_loop rd m m s' (got @ bs) err = Some (got @ bs, err, s')"
      by (rule ReadAtLeast_loop_stop)
    with step have stop: "ReadAtLeast_loop rd m m s got None = Some (got @ bs, err, s')"
      by simp
    have full: "take (m - length got) B = bs \<and> drop (m - length got) B = drop (length bs) B
                \<and> (length got + length B < m \<longrightarrow> err = Some EOF)"
    proof (cases "err = None")
      case True
      with False len have eq: "length bs = m - length got" by simp
      from pre eq have "take (m - length got) B = bs" by simp
      moreover from eq lbs more.prems have "\<not> length got + length B < m" by arith
      ultimately show ?thesis using eq by simp
    next
      case False
      with e have "bs = B" by simp
      with len e False show ?thesis by simp
    qed
    with stop d e show ?thesis by auto
  qed
qed

lemma ReadFull_delivers:
  assumes "delivers rd s B" "0 < m"
  shows "\<exists>s'. ReadFull rd m s
             = Some (take m B,
                     if m \<le> length B then None
                     else if B = [] then Some EOF else Some ErrUnexpectedEOF,
                     s')
           \<and> delivers rd s' (drop m B)"
proof -
  from ReadAtLeast_loop_delivers [OF assms(1), of "[]" m] assms(2) obtain err s' where
    l: "ReadAtLeast_loop rd m m s [] None = Some (take m B, err, s')"
    and d: "delivers rd s' (drop m B)"
    and e: "err = None \<or> err = Some EOF"
    and f: "length B < m \<longrightarrow> err = Some EOF"
    by auto
  show ?thesis
    using l d e f assms(2) by (auto simp: ReadFull_def ReadAtLeast_def)
qed

subsection \<open>Frames\<close>

lemma spec_frames_Nil: "spec_frames k [] = []"
  by (subst spec_frames.simps) simp

lemma spec_frames_Cons:
  "0 < k \<Longrightarrow> B \<noteq> [] \<Longrightarrow> spec_frames k B = take k B # spec_frames k (drop k B)"
  by (subst spec_frames.simps) simp

subsection \<open>One turn of the send loop, and the loop on a finite source\<close>

lemma Run_loop_break:
  "ReadFull (Read w) 1024 s = Some ([], err, s') \<Longrightarrow>
   Run_loop w s cs fs = Some (None, cs, fs @ [(0, err)])"
  by (subst Run_loop.simps) simp

lemma Run_loop_fail:
  "ReadFull (Read w) 1024 s = Some (buf, err, s') \<Longrightarrow> buf \<noteq> [] \<Longrightarrow>
   Send_err w cs (Chunk buf) = Some e \<Longrightarrow>
   Run_loop w s cs fs = Some (Some e, cs @ [Send (Chunk buf)], fs @ [(length buf, err)])"
  by (subst Run_loop.simps) simp

lemma Run_loop_next:
  "ReadFull (Read w) 1024 s = Some (buf, err, s') \<Longrightarrow> buf \<noteq> [] \<Longrightarrow>
   Send_err w cs (Chunk buf) = None \<Longrightarrow>
   Run_loop w s cs fs = Run_loop w s' (cs @ [Send (Chunk buf)]) (fs @ [(length buf, err)])"
  by (subst Run_loop.simps) simp

lemma Run_loop_delivers:
  "delivers (Read w) s B \<Longrightarrow>
   Run_loop w s cs fs = Some (spec_send (Send_err w) cs fs (spec_frames 1024 B))"
proof (induction "length B" arbitrary: B s cs fs rule: less_induct)
  case less
  from ReadFull_delivers [OF less.prems, of 1024] obtain s' where
    rf: "ReadFull (Read w) 1024 s
           = Some (take 1024 B,
                   if 1024 \<le> length B then None
                   else if B = [] then Some EOF else Some ErrUnexpectedEOF,
                   s')"
    and d: "delivers (Read w) s' (drop 1024 B)"
    by auto
  show ?case
  proof (cases "B = []")
    case True
    with rf have "ReadFull (Read w) 1024 s = Some ([], Some EOF, s')"
      by simp
    from Run_loop_break [OF this] True show ?thesis
      by (simp add: spec_frames_Nil)
  next
    case False
    then have fr: "spec_frames 1024 B = take 1024 B # spec_frames 1024 (drop 1024 B)"
      by (simp add: spec_frames_Cons)
    from False have ne: "take 1024 B \<noteq> []" by simp
    from False have "length (drop 1024 B) < length B" by simp
    from less.hyps [OF this d] have
      ih: "\<And>cs fs. Run_loop w s' cs fs
             = Some (spec_send (Send_err w) cs fs (spec_frames 1024 (drop 1024 B)))" .
    define err where "err = (if 1024 \<le> length B then None
              else if B = [] then Some EOF else Some ErrUnexpectedEOF)"
    have f: "err = (if length (take 1024 B) < 1024 then Some ErrUnexpectedEOF else None)"
      using False by (auto simp: err_def)
    from rf have rf': "ReadFull (Read w) 1024 s = Some (take 1024 B, err, s')"
      by (simp only: err_def)
    show ?thesis
    proof (cases "Send_err w cs (Chunk (take 1024 B))")
      case None
      from Run_loop_next [OF rf' ne None] ih show ?thesis
        by (simp only: fr spec_send.simps None option.case f fill_of_def)
    next
      case (Some e)
      from Run_loop_fail [OF rf' ne Some] show ?thesis
        by (simp only: fr spec_send.simps Some option.case f fill_of_def)
    qed
  qed
qed

text \<open>The frames partition the byte stream; none is empty, all but the last are full.\<close>

lemma concat_spec_frames: "0 < k \<Longrightarrow> concat (spec_frames k B) = B"
proof (induction "length B" arbitrary: B rule: less_induct)
  case less
  show ?case
  proof (cases "B = []")
    case True
    then show ?thesis by (simp add: spec_frames_Nil)
  next
    case False
    with less.prems have "length (drop k B) < length B" by simp
    from less.hyps [OF this less.prems] False less.prems show ?thesis
      by (simp add: spec_frames_Cons)
  qed
qed

lemma spec_frames_bounds:
  "0 < k \<Longrightarrow> b \<in> set (spec_frames k B) \<Longrightarrow> 0 < length b \<and> length b \<le> k"
proof (induction "length B" arbitrary: B rule: less_induct)
  case less
  show ?case
  proof (cases "B = []")
    case True
    with less.prems show ?thesis by (simp add: spec_frames_Nil)
  next
    case False
    with less.prems have lt: "length (drop k B) < length B" by simp
    from less.prems False have "b = take k B \<or> b \<in> set (spec_frames k (drop k B))"
      by (simp add: spec_frames_Cons)
    then show ?thesis
    proof
      assume "b = take k B"
      with False less.prems show ?thesis by simp
    next
      assume "b \<in> set (spec_frames k (drop k B))"
      from less.hyps [OF lt less.prems(1) this] show ?thesis .
    qed
  qed
qed

lemma spec_frames_full:
  "0 < k \<Longrightarrow> b \<in> set (butlast (spec_frames k B)) \<Longrightarrow> length b = k"
proof (induction "length B" arbitrary: B rule: less_induct)
  case less
  show ?case
  proof (cases "B = []")
    case True
    with less.prems show ?thesis by (simp add: spec_frames_Nil)
  next
    case False
    with less.prems have lt: "length (drop k B) < length B" by simp
    from False less.prems have fr: "spec_frames k B = take k B # spec_frames k (drop k B)"
      by (simp add: spec_frames_Cons)
    show ?thesis
    proof (cases "drop k B = []")
      case True
      with fr less.prems show ?thesis by (simp add: spec_frames_Nil)
    next
      case dne: False
      then have full: "length (take k B) = k" by simp
      from dne less.prems have "spec_frames k (drop k B) \<noteq> []"
        by (simp add: spec_frames_Cons)
      with fr less.prems have "b = take k B \<or> b \<in> set (butlast (spec_frames k (drop k B)))"
        by simp
      then show ?thesis
      proof
        assume "b = take k B"
        with full show ?thesis by simp
      next
        assume "b \<in> set (butlast (spec_frames k (drop k B)))"
        from less.hyps [OF lt less.prems(1) this] show ?thesis .
      qed
    qed
  qed
qed

subsection \<open>Sending frames until a \<^verbatim>\<open>Send\<close> fails\<close>

lemma spec_send_shape:
  "spec_send sendf cs fs bs = (err, cs', fs') \<Longrightarrow>
   \<exists>k \<le> length bs.
      cs' = cs @ frame_calls (take k bs)
      \<and> fs' = fs @ map fill_of (take k bs) @ (if err = None then [(0, Some EOF)] else [])
      \<and> (err = None \<longrightarrow> k = length bs)
      \<and> (err \<noteq> None \<longrightarrow> 0 < k)"
proof (induction bs arbitrary: cs fs)
  case Nil
  then show ?case by (auto simp: frame_calls_def)
next
  case (Cons b bs)
  show ?case
  proof (cases "sendf cs (Chunk b)")
    case (Some e)
    with Cons.prems have "err = Some e" "cs' = cs @ [Send (Chunk b)]" "fs' = fs @ [fill_of b]"
      by simp_all
    then have "1 \<le> length (b # bs) \<and> cs' = cs @ frame_calls (take 1 (b # bs))
      \<and> fs' = fs @ map fill_of (take 1 (b # bs)) @ (if err = None then [(0, Some EOF)] else [])
      \<and> (err = None \<longrightarrow> 1 = length (b # bs)) \<and> (err \<noteq> None \<longrightarrow> 0 < (1::nat))"
      by (simp add: frame_calls_def)
    then show ?thesis by blast
  next
    case None
    with Cons.prems have
      "spec_send sendf (cs @ [Send (Chunk b)]) (fs @ [fill_of b]) bs = (err, cs', fs')"
      by simp
    from Cons.IH [OF this] obtain k where k: "k \<le> length bs"
      "cs' = (cs @ [Send (Chunk b)]) @ frame_calls (take k bs)"
      "fs' = (fs @ [fill_of b]) @ map fill_of (take k bs)
               @ (if err = None then [(0, Some EOF)] else [])"
      "err = None \<longrightarrow> k = length bs"
      by blast
    then have "Suc k \<le> length (b # bs) \<and> cs' = cs @ frame_calls (take (Suc k) (b # bs))
      \<and> fs' = fs @ map fill_of (take (Suc k) (b # bs))
                 @ (if err = None then [(0, Some EOF)] else [])
      \<and> (err = None \<longrightarrow> Suc k = length (b # bs)) \<and> (err \<noteq> None \<longrightarrow> 0 < Suc k)"
      by (simp add: frame_calls_def)
    then show ?thesis by blast
  qed
qed

lemma spec_send_no_failure:
  "(\<And>cs m. sendf cs m = None) \<Longrightarrow> fst (spec_send sendf cs fs bs) = None"
  by (induction bs arbitrary: cs fs) simp_all

lemma payloads_append: "payloads (xs @ ys) = payloads xs @ payloads ys"
  by (induction xs rule: payloads.induct) simp_all

lemma payloads_frame_calls: "payloads (frame_calls bs) = bs"
  by (induction bs) (simp_all add: frame_calls_def)

subsection \<open>Scripted readers are finite sources\<close>

lemma script_conforms: "length (fst (fst (script_Read sc cap))) \<le> cap"
  by (cases "(sc, cap)" rule: script_Read.cases) auto

lemma script_drained: "drained script_Read []"
  by (coinduction) simp

lemma script_delivers:
  "\<forall>x \<in> set sc. snd x = None \<Longrightarrow> delivers script_Read sc (concat (map fst sc))"
proof (induction "length sc + length (concat (map fst sc))" arbitrary: sc rule: less_induct)
  case less
  show ?case
  proof (cases sc)
    case Nil
    then show ?thesis by (simp add: delivers.at_end script_drained)
  next
    case (Cons x rest)
    obtain bs err where x: "x = (bs, err)" by (cases x)
    with Cons less.prems have err: "err = None" and rest: "\<forall>x \<in> set rest. snd x = None"
      by simp_all
    let ?B = "concat (map fst sc)"
    have B: "?B = bs @ concat (map fst rest)"
      using Cons x by simp
    show ?thesis
    proof (rule delivers.more)
      fix cap :: nat
      assume cap: "0 < cap"
      show "\<exists>bs' err' s'. script_Read sc cap = ((bs', err'), s') \<and> length bs' \<le> cap
              \<and> bs' = take (length bs') ?B
              \<and> (err' = None \<or> err' = Some EOF \<and> bs' = ?B)
              \<and> delivers script_Read s' (drop (length bs') ?B)"
      proof (cases "length bs \<le> cap")
        case True
        then have r: "script_Read sc cap = ((bs, None), rest)"
          using Cons x err by simp
        have "length rest + length (concat (map fst rest)) < length sc + length ?B"
          using Cons B by simp
        from less.hyps [OF this rest] have "delivers script_Read rest (concat (map fst rest))" .
        with r True B show ?thesis by simp
      next
        case False
        then have r: "script_Read sc cap = ((take cap bs, None), (drop cap bs, None) # rest)"
          using Cons x err by simp
        let ?sc' = "(drop cap bs, None) # rest"
        have "length ?sc' + length (concat (map fst ?sc')) < length sc + length ?B"
          using Cons B False cap by simp
        moreover have "\<forall>x \<in> set ?sc'. snd x = None"
          using rest by simp
        ultimately have "delivers script_Read ?sc' (concat (map fst ?sc'))"
          by (rule less.hyps)
        moreover have "concat (map fst ?sc') = drop cap ?B"
          using B False by simp
        moreover have "length (take cap bs) = cap" "take cap bs = take cap ?B"
          using B False by simp_all
        ultimately show ?thesis using r by simp
      qed
    qed
  qed
qed

subsection \<open>What holds for every reader\<close>

text \<open>
  By fixpoint induction over the two loops: whenever they return, the buffer holds no more
  than its length, and the send loop has kept its invariant.
\<close>

lemma ReadAtLeast_loop_length:
  fixes rd :: "'s Reader"
  assumes "ReadAtLeast_loop rd len_buf mn s got err = Some y"
  shows "conforms rd \<longrightarrow> length got \<le> len_buf \<longrightarrow> length (fst y) \<le> len_buf"
proof (rule ReadAtLeast_loop.raw_induct
    [where P = "\<lambda>rd len_buf mn s got err y.
                  conforms rd \<longrightarrow> length got \<le> len_buf \<longrightarrow> length (fst y) \<le> len_buf",
     OF _ assms])
  fix loop :: "'s Reader \<Rightarrow> nat \<Rightarrow> nat \<Rightarrow> 's \<Rightarrow> byte list \<Rightarrow> error option
                 \<Rightarrow> (byte list \<times> error option \<times> 's) option"
    and rd :: "'s Reader" and len_buf mn s got err y
  assume IH: "\<And>rd len_buf mn s got err y. loop rd len_buf mn s got err = Some y \<Longrightarrow>
                conforms rd \<longrightarrow> length got \<le> len_buf \<longrightarrow> length (fst y) \<le> len_buf"
    and body: "(if length got < mn \<and> err = None then
                  (let r = rd s (len_buf - length got) in
                   loop rd len_buf mn (snd r) (got @ fst (fst r)) (snd (fst r)))
                else Some (got, err, s)) = Some y"
  show "conforms rd \<longrightarrow> length got \<le> len_buf \<longrightarrow> length (fst y) \<le> len_buf"
  proof (intro impI)
    assume c: "conforms rd" and l: "length got \<le> len_buf"
    show "length (fst y) \<le> len_buf"
    proof (cases "length got < mn \<and> err = None")
      case True
      let ?r = "rd s (len_buf - length got)"
      from True body have
        call: "loop rd len_buf mn (snd ?r) (got @ fst (fst ?r)) (snd (fst ?r)) = Some y"
        by (simp add: Let_def)
      from c have "length (fst (fst ?r)) \<le> len_buf - length got"
        by (simp add: conforms_def)
      with l have "length (got @ fst (fst ?r)) \<le> len_buf"
        by simp
      with IH [OF call] c show ?thesis by blast
    next
      case False
      with body l show ?thesis by auto
    qed
  qed
qed

lemma ReadFull_length:
  "ReadFull rd m s = Some (buf, err, s') \<Longrightarrow> conforms rd \<Longrightarrow> length buf \<le> m"
  using ReadAtLeast_loop_length [of rd m m s "[]" None]
  by (auto simp: ReadFull_def ReadAtLeast_def split: bind_splits)

lemma Run_loop_invariant:
  fixes w :: "'s World"
  assumes "Run_loop w s cs fs = Some y"
  shows "chunks_ok w cs \<longrightarrow> chunks_ok w (fst (snd y))"
proof (rule Run_loop.raw_induct
    [where P = "\<lambda>w s cs fs y. chunks_ok w cs \<longrightarrow> chunks_ok w (fst (snd y))", OF _ assms])
  fix loop :: "'s World \<Rightarrow> 's \<Rightarrow> call list \<Rightarrow> (nat \<times> error option) list
                 \<Rightarrow> (error option \<times> call list \<times> (nat \<times> error option) list) option"
    and w :: "'s World" and s cs fs y
  assume IH: "\<And>w s cs fs y. loop w s cs fs = Some y \<Longrightarrow>
                chunks_ok w cs \<longrightarrow> chunks_ok w (fst (snd y))"
    and body: "ReadFull (Read w) 1024 s \<bind>
         (\<lambda>(buf, err, s').
             let n = length buf;
                 err' = (if err = Some EOF \<or> err = Some ErrUnexpectedEOF then None else err)
             in if n = 0 then Some (None, cs, fs @ [(n, err)])
                else (case Send_err w cs (Chunk buf) of
                        None \<Rightarrow> loop w s' (cs @ [Send (Chunk buf)]) (fs @ [(n, err)])
                      | Some e \<Rightarrow> Some (Some e, cs @ [Send (Chunk buf)], fs @ [(n, err)])))
         = Some y"
  show "chunks_ok w cs \<longrightarrow> chunks_ok w (fst (snd y))"
  proof
    assume ok: "chunks_ok w cs"
    from body obtain buf err s' where
      rf: "ReadFull (Read w) 1024 s = Some (buf, err, s')"
      by (auto split: bind_splits)
    show "chunks_ok w (fst (snd y))"
    proof (cases "buf = []")
      case True
      with body rf have "fst (snd y) = cs" by auto
      with ok show ?thesis by simp
    next
      case False
      from ReadFull_length [OF rf] have "conforms (Read w) \<longrightarrow> length buf \<le> 1024"
        by blast
      with ok False have ok': "chunks_ok w (cs @ [Send (Chunk buf)])"
        by (auto simp: chunks_ok_def)
      show ?thesis
      proof (cases "Send_err w cs (Chunk buf)")
        case None
        with body rf False have
          "loop w s' (cs @ [Send (Chunk buf)]) (fs @ [(length buf, err)]) = Some y"
          by (simp add: Let_def)
        from IH [OF this] ok' show ?thesis by blast
      next
        case (Some e)
        with body rf False have "fst (snd y) = cs @ [Send (Chunk buf)]"
          by (auto simp: Let_def)
        with ok' show ?thesis by simp
      qed
    qed
  qed
qed

lemma Run_invariant:
  assumes "Run w args = Some out"
  shows "chunks_ok w (calls out)"
proof (cases "\<exists>r closer err cs fs. Init_err w = None \<and> initReader w args = Inr (r, closer)
          \<and> RestoreSnapshot_err w = None \<and> Send_err w [] Open = None
          \<and> Run_loop w (state r) [Send Open] [] = Some (err, cs, fs)")
  case True
  then obtain r closer err cs fs where
    h: "Init_err w = None" "initReader w args = Inr (r, closer)"
       "RestoreSnapshot_err w = None" "Send_err w [] Open = None"
    and l: "Run_loop w (state r) [Send Open] [] = Some (err, cs, fs)"
    by blast
  from Run_loop_invariant [OF l] have inv: "chunks_ok w cs"
    by (simp add: chunks_ok_def)
  from assms h l have "calls out = cs \<or> calls out = cs @ [CloseAndRecv]"
    by (auto simp: Run_def split: option.splits)
  with inv show ?thesis by (auto simp: chunks_ok_def)
next
  case False
  with assms have "calls out = [] \<or> calls out = [Send Open]"
    by (auto simp: Run_def split: option.splits sum.splits prod.splits bind_splits)
  then show ?thesis by (auto simp: chunks_ok_def)
qed

subsection \<open>A run on a finite source\<close>

text \<open>
  A run that reaches the protocol on a finite source returns. Its calls are Open and the
  first \<open>k\<close> frames, with status 1, when a \<^verbatim>\<open>Send\<close> failed; else they are the whole session,
  and the result of \<^verbatim>\<open>CloseAndRecv\<close> decides the status.
\<close>

lemma Run_on_finite_source:
  assumes "Init_err w = None" and "initReader w args = Inr (r, closer)"
    and "RestoreSnapshot_err w = None" and "delivers (Read w) (state r) B"
  shows "\<exists>out k. Run w args = Some out \<and> k \<le> length (spec_frames 1024 B)
           \<and> (calls out = Send Open # frame_calls (take k (spec_frames 1024 B))
                \<and> status out = 1 \<and> \<not> (\<forall>cs m. Send_err w cs m = None)
              \<or> calls out = transfer_calls B
                \<and> (status out = 0 \<longleftrightarrow> CloseAndRecv_err w (butlast (transfer_calls B)) = None))"
proof (cases "Send_err w [] Open")
  case (Some e)
  let ?out = "\<lparr>status = 1, stderr = [''failed to send start message: '' @ Error e],
                ui_Output = [], calls = [Send Open], closed = (closer \<noteq> None), fills = []\<rparr>"
  from assms Some have "Run w args = Some ?out"
    by (simp add: Run_def)
  moreover have "calls ?out = Send Open # frame_calls (take 0 (spec_frames 1024 B))"
    by (simp add: frame_calls_def)
  moreover from Some have "\<not> (\<forall>cs m. Send_err w cs m = None)"
    by (metis option.distinct(1))
  ultimately show ?thesis
    by (intro exI [of _ ?out] exI [of _ 0]) simp
next
  case None
  let ?F = "spec_frames 1024 B"
  obtain err cs fs where sp: "spec_send (Send_err w) [Send Open] [] ?F = (err, cs, fs)"
    by (cases "spec_send (Send_err w) [Send Open] [] ?F") auto
  from Run_loop_delivers [OF assms(4)] sp have
    l: "Run_loop w (state r) [Send Open] [] = Some (err, cs, fs)"
    by simp
  from spec_send_shape [OF sp] obtain k where k: "k \<le> length ?F"
    and cs: "cs = [Send Open] @ frame_calls (take k ?F)"
    and full: "err = None \<longrightarrow> k = length ?F"
    by blast
  show ?thesis
  proof (cases err)
    case (Some e)
    let ?out = "\<lparr>status = 1, stderr = [''failed to write snapshot data: '' @ Error e],
                  ui_Output = [], calls = cs, closed = (closer \<noteq> None), fills = fs\<rparr>"
    from assms None l Some have "Run w args = Some ?out"
      by (simp add: Run_def)
    moreover have "\<not> (\<forall>cs m. Send_err w cs m = None)"
    proof
      assume "\<forall>cs m. Send_err w cs m = None"
      then have "fst (spec_send (Send_err w) [Send Open] [] ?F) = None"
        by (intro spec_send_no_failure) simp
      with sp Some show False by simp
    qed
    ultimately show ?thesis using k cs
      by (intro exI [of _ ?out] exI [of _ k]) simp
  next
    case eN: None
    with full cs have cs': "cs @ [CloseAndRecv] = transfer_calls B"
      by (simp add: transfer_calls_def)
    then have bl: "butlast (transfer_calls B) = cs"
      by (metis butlast_snoc)
    show ?thesis
    proof (cases "CloseAndRecv_err w cs")
      case (Some e)
      let ?out = "\<lparr>status = 1,
                    stderr = [''failed to receive snapshot start message: '' @ Error e],
                    ui_Output = [], calls = cs @ [CloseAndRecv], closed = (closer \<noteq> None),
                    fills = fs\<rparr>"
      from assms None l eN Some have "Run w args = Some ?out"
        by (simp add: Run_def)
      with cs' bl Some k show ?thesis
        by (intro exI [of _ ?out] exI [of _ k]) simp
    next
      case cN: None
      let ?out = "\<lparr>status = 0, stderr = [],
                     ui_Output =
                       [if is_Stdin r then ''Server data restored.''
                        else ''Server data restored from '' @ [CHR 0x27] @ args ! 0
                               @ [CHR 0x27] @ ''.''],
                     calls = cs @ [CloseAndRecv], closed = (closer \<noteq> None), fills = fs\<rparr>"
      from assms None l eN cN have "Run w args = Some ?out"
        by (simp add: Run_def)
      with cs' bl cN k show ?thesis
        by (intro exI [of _ ?out] exI [of _ k]) simp
    qed
  qed
qed

lemma set_payloads: "b \<in> set (payloads cs) \<longleftrightarrow> Send (Chunk b) \<in> set cs"
  by (induction cs rule: payloads.induct) auto

lemma CloseAndRecv_frame_calls: "CloseAndRecv \<notin> set (frame_calls bs)"
  by (auto simp: frame_calls_def)

lemma Open_frame_calls: "Send Open \<notin> set (frame_calls bs)"
  by (auto simp: frame_calls_def)

lemma butlast_take_subset:
  assumes "k \<le> length xs"
  shows "set (butlast (take k xs)) \<subseteq> set (butlast xs)"
proof -
  have "butlast (take k xs) = take (k - 1) xs"
    using assms by (simp add: butlast_take)
  moreover have "butlast xs = take (length xs - 1) xs"
    by (rule butlast_conv_take)
  moreover have "set (take (k - 1) xs) \<subseteq> set (take (length xs - 1) xs)"
    using assms by (intro set_take_subset_set_take) simp
  ultimately show ?thesis by simp
qed

subsection \<open>Facts for the examples\<close>

lemma Run_loop_script:
  assumes "Read w = script_Read" and "\<forall>x \<in> set sc. snd x = None"
  shows "Run_loop w sc cs fs
           = Some (spec_send (Send_err w) cs fs (spec_frames 1024 (concat (map fst sc))))"
  using Run_loop_delivers [of w sc "concat (map fst sc)" cs fs] script_delivers [OF assms(2)]
    assms(1)
  by simp

lemma concat_replicate_single: "concat (replicate n [x]) = replicate n x"
  by (induction n) simp_all

lemma pipe_world_reaches:
  "Init_err (pipe_world sc) = None" "RestoreSnapshot_err (pipe_world sc) = None"
  "initReader (pipe_world sc) [] = Inr (StdinFile sc, None)"
  "\<forall>cs m. Send_err (pipe_world sc) cs m = None"
  "Read (pipe_world sc) = script_Read"
  by (simp_all add: pipe_world_def initReader_def)

section \<open>Runs on any source\<close>

text \<open>
  What the loop and the run do on a source given by its buffer fills: the calls they make
  when they return, and that they return once a fill finds nothing or a \<^verbatim>\<open>Send\<close> fails.
\<close>

lemma sends_ok_append:
  "sends_ok sendf pre (xs @ ys) \<longleftrightarrow> sends_ok sendf pre xs \<and> sends_ok sendf (pre @ xs) ys"
proof (induction xs arbitrary: pre)
  case Nil
  then show ?case by simp
next
  case (Cons c xs)
  show ?case
  proof (cases c)
    case (Send m)
    with Cons [of "pre @ [Send m]"] show ?thesis by auto
  next
    case CloseAndRecv
    with Cons [of "pre @ [CloseAndRecv]"] show ?thesis by auto
  qed
qed

lemma sends_ok_always: "(\<And>cs m. sendf cs m = None) \<Longrightarrow> sends_ok sendf pre cs"
proof (induction cs arbitrary: pre)
  case Nil
  then show ?case by simp
next
  case (Cons c cs)
  then show ?case by (cases c) simp_all
qed

lemma sends_ok_frame_Cons:
  "sends_ok sendf pre (frame_calls (b # bs))
     \<longleftrightarrow> sendf pre (Chunk b) = None \<and> sends_ok sendf (pre @ [Send (Chunk b)]) (frame_calls bs)"
  by (simp add: frame_calls_def)

lemma frame_calls_Cons: "frame_calls (b # bs) = Send (Chunk b) # frame_calls bs"
  by (simp add: frame_calls_def)

lemma frame_calls_Nil: "frame_calls [] = []"
  by (simp add: frame_calls_def)

lemma frame_calls_snoc: "frame_calls (bs @ [b]) = frame_calls bs @ [Send (Chunk b)]"
  by (simp add: frame_calls_def)

lemma Run_loop_stops:
  fixes w :: "'s World"
  assumes "Run_loop w s cs fs = Some y"
  shows "loop_stops w s cs (fst y) (fst (snd y))"
proof (rule Run_loop.raw_induct
    [where P = "\<lambda>w s cs fs y. loop_stops w s cs (fst y) (fst (snd y))", OF _ assms])
  fix loop :: "'s World \<Rightarrow> 's \<Rightarrow> call list \<Rightarrow> (nat \<times> error option) list
                 \<Rightarrow> (error option \<times> call list \<times> (nat \<times> error option) list) option"
    and w :: "'s World" and s cs fs y
  assume IH: "\<And>w s cs fs y. loop w s cs fs = Some y \<Longrightarrow>
                loop_stops w s cs (fst y) (fst (snd y))"
    and body: "ReadFull (Read w) 1024 s \<bind>
         (\<lambda>(buf, err, s').
             let n = length buf;
                 err' = (if err = Some EOF \<or> err = Some ErrUnexpectedEOF then None else err)
             in if n = 0 then Some (None, cs, fs @ [(n, err)])
                else (case Send_err w cs (Chunk buf) of
                        None \<Rightarrow> loop w s' (cs @ [Send (Chunk buf)]) (fs @ [(n, err)])
                      | Some e \<Rightarrow> Some (Some e, cs @ [Send (Chunk buf)], fs @ [(n, err)])))
         = Some y"
  from body obtain buf err s1 where
    rf: "ReadFull (Read w) 1024 s = Some (buf, err, s1)"
    by (auto split: bind_splits)
  show "loop_stops w s cs (fst y) (fst (snd y))"
  proof (cases "buf = []")
    case True
    with body rf have y: "fst y = None" "fst (snd y) = cs" by auto
    have "fills_from (Read w) s [] s" by (rule fills_from.no_fill)
    with rf True y show ?thesis
      unfolding loop_stops_def
      by (intro exI [of _ "[]"] exI [of _ s]) (simp add: frame_calls_Nil)
  next
    case False
    show ?thesis
    proof (cases "Send_err w cs (Chunk buf)")
      case (Some e)
      with body rf False have y: "fst y = Some e" "fst (snd y) = cs @ [Send (Chunk buf)]"
        by (auto simp: Let_def)
      have "fills_from (Read w) s [(buf, err)] s1"
        by (rule fills_from.one_more [OF rf False fills_from.no_fill])
      with Some y show ?thesis
        unfolding loop_stops_def
        by (intro exI [of _ "[(buf, err)]"] exI [of _ s1])
           (simp add: frame_calls_Nil frame_calls_Cons)
    next
      case None
      with body rf False have
        "loop w s1 (cs @ [Send (Chunk buf)]) (fs @ [(length buf, err)]) = Some y"
        by (simp add: Let_def)
      from IH [OF this] obtain fl s' where
        ff: "fills_from (Read w) s1 fl s'"
        and cs': "fst (snd y) = (cs @ [Send (Chunk buf)]) @ frame_calls (map fst fl)"
        and rest: "(case fst y of
              None \<Rightarrow>
                sends_ok (Send_err w) (cs @ [Send (Chunk buf)]) (frame_calls (map fst fl))
                \<and> (\<exists>e s''. ReadFull (Read w) 1024 s' = Some ([], e, s''))
            | Some e \<Rightarrow>
                fl \<noteq> []
                \<and> sends_ok (Send_err w) (cs @ [Send (Chunk buf)])
                     (frame_calls (map fst (butlast fl)))
                \<and> Send_err w ((cs @ [Send (Chunk buf)]) @ frame_calls (map fst (butlast fl)))
                     (Chunk (fst (last fl))) = Some e)"
        unfolding loop_stops_def by blast
      let ?fl = "(buf, err) # fl"
      have ff': "fills_from (Read w) s ?fl s'"
        by (rule fills_from.one_more [OF rf False ff])
      have cs'': "fst (snd y) = cs @ frame_calls (map fst ?fl)"
        using cs' by (simp add: frame_calls_Cons)
      have "case fst y of
              None \<Rightarrow>
                sends_ok (Send_err w) cs (frame_calls (map fst ?fl))
                \<and> (\<exists>e s''. ReadFull (Read w) 1024 s' = Some ([], e, s''))
            | Some e \<Rightarrow>
                ?fl \<noteq> []
                \<and> sends_ok (Send_err w) cs (frame_calls (map fst (butlast ?fl)))
                \<and> Send_err w (cs @ frame_calls (map fst (butlast ?fl)))
                     (Chunk (fst (last ?fl))) = Some e"
        using rest None
        by (cases "fst y") (auto simp: frame_calls_Cons)
      with ff' cs'' show ?thesis
        unfolding loop_stops_def by blast
    qed
  qed
qed

lemma Run_loop_ends:
  assumes "fills_from (Read w) s fl s1" and "ReadFull (Read w) 1024 s1 = Some ([], e0, s2)"
  shows "\<exists>err cs' new bs. Run_loop w s cs fs = Some (err, cs', fs @ new)
           \<and> new \<noteq> [] \<and> (\<forall>f \<in> set (butlast new). 0 < fst f)
           \<and> (err = None \<longleftrightarrow> fst (last new) = 0)
           \<and> cs' = cs @ frame_calls bs \<and> prefix bs (map fst fl)
           \<and> (err = None \<longrightarrow> bs = map fst fl \<and> sends_ok (Send_err w) cs (frame_calls bs))
           \<and> (\<forall>e. err = Some e \<longrightarrow>
                 bs \<noteq> [] \<and> sends_ok (Send_err w) cs (frame_calls (butlast bs))
                 \<and> Send_err w (cs @ frame_calls (butlast bs)) (Chunk (last bs)) = Some e)
           \<and> new = map (\<lambda>f. (length (fst f), snd f)) (take (length bs) fl)
                     @ (if err = None then [(0, e0)] else [])"
  using assms
proof (induction arbitrary: cs fs rule: fills_from.induct)
  case (no_fill s)
  from Run_loop_break [OF no_fill.prems] have
    "Run_loop w s cs fs = Some (None, cs, fs @ [(0, e0)])" .
  then show ?case
    by (intro exI [of _ None] exI [of _ cs] exI [of _ "[(0, e0)]"] exI [of _ "[]"])
       (simp add: frame_calls_Nil)
next
  case (one_more s buf err0 sa fl s1)
  let ?cs = "cs @ [Send (Chunk buf)]"
  let ?f = "(length buf, err0)"
  show ?case
  proof (cases "Send_err w cs (Chunk buf)")
    case (Some e)
    from Run_loop_fail [OF one_more.hyps(1) one_more.hyps(2) Some] have
      "Run_loop w s cs fs = Some (Some e, ?cs, fs @ [?f])" .
    with Some one_more.hyps(2) show ?thesis
      by (intro exI [of _ "Some e"] exI [of _ ?cs] exI [of _ "[?f]"] exI [of _ "[buf]"])
         (simp add: frame_calls_Nil frame_calls_Cons)
  next
    case None
    from Run_loop_next [OF one_more.hyps(1) one_more.hyps(2) None] have
      step: "Run_loop w s cs fs = Run_loop w sa ?cs (fs @ [?f])" .
    from one_more.IH [OF one_more.prems, of ?cs "fs @ [?f]"] obtain err cs' new bs where
      run: "Run_loop w sa ?cs (fs @ [?f]) = Some (err, cs', (fs @ [?f]) @ new)"
      and new: "new \<noteq> []" "\<forall>f \<in> set (butlast new). 0 < fst f"
        "err = None \<longleftrightarrow> fst (last new) = 0"
      and cs': "cs' = ?cs @ frame_calls bs" and pre: "prefix bs (map fst fl)"
      and ok: "err = None \<longrightarrow> bs = map fst fl \<and> sends_ok (Send_err w) ?cs (frame_calls bs)"
      and bad: "\<forall>e. err = Some e \<longrightarrow>
                 bs \<noteq> [] \<and> sends_ok (Send_err w) ?cs (frame_calls (butlast bs))
                 \<and> Send_err w (?cs @ frame_calls (butlast bs)) (Chunk (last bs)) = Some e"
      and log: "new = map (\<lambda>f. (length (fst f), snd f)) (take (length bs) fl)
                     @ (if err = None then [(0, e0)] else [])"
      by (elim exE conjE) (rule that, assumption+)
    let ?new = "?f # new"
    let ?bs = "buf # bs"
    have 1: "Run_loop w s cs fs = Some (err, cs', fs @ ?new)"
      using step run by simp
    have 2: "?new \<noteq> [] \<and> (\<forall>f \<in> set (butlast ?new). 0 < fst f)
               \<and> (err = None \<longleftrightarrow> fst (last ?new) = 0)"
      using new one_more.hyps(2) by simp
    have 3: "cs' = cs @ frame_calls ?bs \<and> prefix ?bs (map fst ((buf, err0) # fl))"
      using cs' pre by (simp add: frame_calls_Cons)
    have 4: "err = None \<longrightarrow>
               ?bs = map fst ((buf, err0) # fl) \<and> sends_ok (Send_err w) cs (frame_calls ?bs)"
      using ok None by (auto simp: frame_calls_Cons)
    have 5: "\<forall>e. err = Some e \<longrightarrow>
                 ?bs \<noteq> [] \<and> sends_ok (Send_err w) cs (frame_calls (butlast ?bs))
                 \<and> Send_err w (cs @ frame_calls (butlast ?bs)) (Chunk (last ?bs)) = Some e"
      using bad None by (auto simp: frame_calls_Cons)
    have 6: "?new = map (\<lambda>f. (length (fst f), snd f)) (take (length ?bs) ((buf, err0) # fl))
                     @ (if err = None then [(0, e0)] else [])"
      using log by simp
    from 1 2 3 4 5 6 show ?thesis
      by (intro exI [of _ err] exI [of _ cs'] exI [of _ ?new] exI [of _ ?bs]) blast
  qed
qed

lemma delivers_fills:
  "delivers rd s B \<Longrightarrow>
   \<exists>fl s1 s2. fills_from rd s fl s1 \<and> map fst fl = spec_frames 1024 B
      \<and> ReadFull rd 1024 s1 = Some ([], Some EOF, s2)"
proof (induction "length B" arbitrary: B s rule: less_induct)
  case less
  from ReadFull_delivers [OF less.prems, of 1024] obtain s' where
    rf: "ReadFull rd 1024 s
           = Some (take 1024 B,
                   if 1024 \<le> length B then None
                   else if B = [] then Some EOF else Some ErrUnexpectedEOF,
                   s')"
    and d: "delivers rd s' (drop 1024 B)"
    by auto
  show ?case
  proof (cases "B = []")
    case True
    with rf have "ReadFull rd 1024 s = Some ([], Some EOF, s')" by simp
    moreover have "fills_from rd s [] s" by (rule fills_from.no_fill)
    ultimately show ?thesis using True
      by (intro exI [of _ "[]"] exI [of _ s] exI [of _ s']) (simp add: spec_frames_Nil)
  next
    case False
    then have "length (drop 1024 B) < length B" by simp
    from less.hyps [OF this d] obtain fl s1 s2 where
      ff: "fills_from rd s' fl s1" and fr: "map fst fl = spec_frames 1024 (drop 1024 B)"
      and z: "ReadFull rd 1024 s1 = Some ([], Some EOF, s2)"
      by blast
    from False have ne: "take 1024 B \<noteq> []" by simp
    let ?e = "if 1024 \<le> length B then None
              else if B = [] then Some EOF else Some ErrUnexpectedEOF"
    from fills_from.one_more [OF rf ne ff] fr z False show ?thesis
      by (intro exI [of _ "(take 1024 B, ?e) # fl"] exI [of _ s1] exI [of _ s2])
         (simp add: spec_frames_Cons)
  qed
qed

lemma butlast_Open_frame_calls:
  "bs \<noteq> [] \<Longrightarrow> butlast (Send Open # frame_calls bs) = Send Open # frame_calls (butlast bs)"
  by (simp add: frame_calls_def map_butlast)

lemma frame_calls_butlast_last:
  "bs \<noteq> [] \<Longrightarrow> frame_calls bs = frame_calls (butlast bs) @ [Send (Chunk (last bs))]"
proof -
  assume "bs \<noteq> []"
  then have "bs = butlast bs @ [last bs]" by simp
  then have "frame_calls bs = frame_calls (butlast bs @ [last bs])" by simp
  then show ?thesis by (simp only: frame_calls_snoc)
qed

lemma run_ends_Open_fails:
  assumes "Init_err w = None" and "initReader w args = Inr (r, closer)"
    and "RestoreSnapshot_err w = None" and "Send_err w [] Open = Some e"
  shows "\<exists>out. Run w args = Some out \<and> run_ends w [] out"
proof -
  let ?out = "\<lparr>status = 1, stderr = [''failed to send start message: '' @ Error e],
                ui_Output = [], calls = [Send Open], closed = (closer \<noteq> None), fills = []\<rparr>"
  from assms have "Run w args = Some ?out"
    by (simp add: Run_def)
  moreover from assms(4) have "run_ends w [] ?out"
    by (simp add: run_ends_def frame_calls_Nil)
  ultimately show ?thesis by blast
qed

lemma run_ends_from_loop:
  assumes "Init_err w = None" and "initReader w args = Inr (r, closer)"
    and "RestoreSnapshot_err w = None" and "Send_err w [] Open = None"
    and l: "Run_loop w (state r) [Send Open] [] = Some (err, cs', fs')"
    and cs': "cs' = [Send Open] @ frame_calls bs"
    and ok: "err = None \<longrightarrow> sends_ok (Send_err w) [Send Open] (frame_calls bs)"
    and bad: "\<forall>e. err = Some e \<longrightarrow>
                 bs \<noteq> [] \<and> sends_ok (Send_err w) [Send Open] (frame_calls (butlast bs))
                 \<and> Send_err w ([Send Open] @ frame_calls (butlast bs)) (Chunk (last bs)) = Some e"
  shows "\<exists>out. Run w args = Some out \<and> run_ends w bs out"
proof (cases err)
  case (Some e)
  let ?out = "\<lparr>status = 1, stderr = [''failed to write snapshot data: '' @ Error e],
                ui_Output = [], calls = cs', closed = (closer \<noteq> None), fills = fs'\<rparr>"
  from assms(1-4) l Some have run: "Run w args = Some ?out"
    by (simp add: Run_def)
  from bad Some have ne: "bs \<noteq> []"
    and pre: "sends_ok (Send_err w) [Send Open] (frame_calls (butlast bs))"
    and fail: "Send_err w ([Send Open] @ frame_calls (butlast bs)) (Chunk (last bs)) = Some e"
    by simp_all
  have b: "butlast (Send Open # frame_calls bs) = Send Open # frame_calls (butlast bs)"
    by (rule butlast_Open_frame_calls [OF ne])
  from pre assms(4) have 1: "sends_ok (Send_err w) [] (butlast (Send Open # frame_calls bs))"
    by (simp only: b sends_ok.simps append_Nil simp_thms)
  have "\<not> sends_ok (Send_err w) [Send Open]
            (frame_calls (butlast bs) @ [Send (Chunk (last bs))])"
    using fail by (simp add: sends_ok_append)
  then have 2: "\<not> sends_ok (Send_err w) [] (Send Open # frame_calls bs)"
    using frame_calls_butlast_last [OF ne] by simp
  from 1 2 cs' have "run_ends w bs ?out"
    by (simp add: run_ends_def)
  with run show ?thesis by blast
next
  case None
  with ok assms(4) have s: "sends_ok (Send_err w) [] (Send Open # frame_calls bs)"
    by simp
  show ?thesis
  proof (cases "CloseAndRecv_err w cs'")
    case (Some e)
    let ?out = "\<lparr>status = 1,
                  stderr = [''failed to receive snapshot start message: '' @ Error e],
                  ui_Output = [], calls = cs' @ [CloseAndRecv], closed = (closer \<noteq> None),
                  fills = fs'\<rparr>"
    from assms(1-4) l None Some have "Run w args = Some ?out"
      by (simp add: Run_def)
    moreover from s cs' Some have "run_ends w bs ?out"
      by (simp add: run_ends_def)
    ultimately show ?thesis by blast
  next
    case cN: None
    let ?out = "\<lparr>status = 0, stderr = [],
                   ui_Output =
                     [if is_Stdin r then ''Server data restored.''
                      else ''Server data restored from '' @ [CHR 0x27] @ args ! 0
                             @ [CHR 0x27] @ ''.''],
                   calls = cs' @ [CloseAndRecv], closed = (closer \<noteq> None), fills = fs'\<rparr>"
    from assms(1-4) l None cN have "Run w args = Some ?out"
      by (simp add: Run_def)
    moreover from s cs' cN have "run_ends w bs ?out"
      by (simp add: run_ends_def)
    ultimately show ?thesis by blast
  qed
qed

lemma Run_on_ending_source:
  assumes "Init_err w = None" and "initReader w args = Inr (r, closer)"
    and "RestoreSnapshot_err w = None"
    and "fills_from (Read w) (state r) fl s1"
    and "ReadFull (Read w) 1024 s1 = Some ([], e0, s2)"
  shows "\<exists>out bs. Run w args = Some out \<and> prefix bs (map fst fl) \<and> run_ends w bs out
           \<and> (sends_ok (Send_err w) [] (Send Open # frame_calls bs) \<longrightarrow> bs = map fst fl)"
proof (cases "Send_err w [] Open")
  case (Some e)
  from run_ends_Open_fails [OF assms(1-3) Some] obtain out where
    "Run w args = Some out" and "run_ends w [] out"
    by blast
  moreover from Some have "\<not> sends_ok (Send_err w) [] (Send Open # frame_calls [])"
    by simp
  ultimately show ?thesis
    by (intro exI [of _ out] exI [of _ "[]"]) auto
next
  case None
  from Run_loop_ends [OF assms(4,5), of "[Send Open]" "[]"] obtain err cs' new bs where
    l: "Run_loop w (state r) [Send Open] [] = Some (err, cs', [] @ new)"
    and cs': "cs' = [Send Open] @ frame_calls bs" and pre: "prefix bs (map fst fl)"
    and ok: "err = None \<longrightarrow> bs = map fst fl \<and> sends_ok (Send_err w) [Send Open] (frame_calls bs)"
    and bad: "\<forall>e. err = Some e \<longrightarrow>
                 bs \<noteq> [] \<and> sends_ok (Send_err w) [Send Open] (frame_calls (butlast bs))
                 \<and> Send_err w ([Send Open] @ frame_calls (butlast bs)) (Chunk (last bs)) = Some e"
    by (elim exE conjE) (rule that, assumption+)
  from ok have ok': "err = None \<longrightarrow> sends_ok (Send_err w) [Send Open] (frame_calls bs)"
    by blast
  from run_ends_from_loop [OF assms(1-3) None l cs' ok' bad] obtain out where
    run: "Run w args = Some out" and re: "run_ends w bs out"
    by blast
  have "sends_ok (Send_err w) [] (Send Open # frame_calls bs) \<longrightarrow> bs = map fst fl"
  proof
    assume a: "sends_ok (Send_err w) [] (Send Open # frame_calls bs)"
    show "bs = map fst fl"
    proof (cases err)
      case None
      with ok show ?thesis by blast
    next
      case (Some e)
      with bad have ne: "bs \<noteq> []"
        and fail: "Send_err w ([Send Open] @ frame_calls (butlast bs)) (Chunk (last bs)) = Some e"
        by simp_all
      have "\<not> sends_ok (Send_err w) [Send Open]
                (frame_calls (butlast bs) @ [Send (Chunk (last bs))])"
        using fail by (simp add: sends_ok_append)
      then have "\<not> sends_ok (Send_err w) [] (Send Open # frame_calls bs)"
        using frame_calls_butlast_last [OF ne] by simp
      with a show ?thesis by blast
    qed
  qed
  with run pre re show ?thesis by blast
qed

lemma Run_stops:
  assumes "Init_err w = None" and "initReader w args = Inr (r, closer)"
    and "RestoreSnapshot_err w = None" and run: "Run w args = Some out"
  shows "\<exists>fl s'. fills_from (Read w) (state r) fl s' \<and> run_ends w (map fst fl) out
           \<and> (sends_ok (Send_err w) [] (Send Open # frame_calls (map fst fl)) \<longrightarrow>
                (\<exists>e s''. ReadFull (Read w) 1024 s' = Some ([], e, s'')))"
proof (cases "Send_err w [] Open")
  case (Some e)
  from run_ends_Open_fails [OF assms(1-3) Some] run have "run_ends w [] out"
    by auto
  moreover have "fills_from (Read w) (state r) [] (state r)"
    by (rule fills_from.no_fill)
  ultimately show ?thesis using Some
    by (intro exI [of _ "[]"] exI [of _ "state r"]) (simp add: frame_calls_Nil)
next
  case None
  from assms None obtain err cs' fs' where
    l: "Run_loop w (state r) [Send Open] [] = Some (err, cs', fs')"
    by (auto simp: Run_def split: bind_splits)
  from Run_loop_stops [OF l] obtain fl s' where
    ff: "fills_from (Read w) (state r) fl s'"
    and cs': "cs' = [Send Open] @ frame_calls (map fst fl)"
    and rest: "case err of
              None \<Rightarrow>
                sends_ok (Send_err w) [Send Open] (frame_calls (map fst fl))
                \<and> (\<exists>e s''. ReadFull (Read w) 1024 s' = Some ([], e, s''))
            | Some e \<Rightarrow>
                fl \<noteq> []
                \<and> sends_ok (Send_err w) [Send Open] (frame_calls (map fst (butlast fl)))
                \<and> Send_err w ([Send Open] @ frame_calls (map fst (butlast fl)))
                     (Chunk (fst (last fl))) = Some e"
    unfolding loop_stops_def by auto
  let ?bs = "map fst fl"
  from rest have ok: "err = None \<longrightarrow> sends_ok (Send_err w) [Send Open] (frame_calls ?bs)"
    and zero: "err = None \<longrightarrow> (\<exists>e s''. ReadFull (Read w) 1024 s' = Some ([], e, s''))"
    by (auto split: option.splits)
  from rest have bad: "\<forall>e. err = Some e \<longrightarrow>
                 ?bs \<noteq> [] \<and> sends_ok (Send_err w) [Send Open] (frame_calls (butlast ?bs))
                 \<and> Send_err w ([Send Open] @ frame_calls (butlast ?bs)) (Chunk (last ?bs))
                     = Some e"
    by (auto simp: map_butlast last_map split: option.splits)
  from run_ends_from_loop [OF assms(1-3) None l cs' ok bad] run have re: "run_ends w ?bs out"
    by auto
  have "sends_ok (Send_err w) [] (Send Open # frame_calls ?bs) \<longrightarrow>
          (\<exists>e s''. ReadFull (Read w) 1024 s' = Some ([], e, s''))"
  proof
    assume a: "sends_ok (Send_err w) [] (Send Open # frame_calls ?bs)"
    show "\<exists>e s''. ReadFull (Read w) 1024 s' = Some ([], e, s'')"
    proof (cases err)
      case None
      with zero show ?thesis by blast
    next
      case (Some e)
      with bad have ne: "?bs \<noteq> []"
        and fail: "Send_err w ([Send Open] @ frame_calls (butlast ?bs)) (Chunk (last ?bs))
                     = Some e"
        by simp_all
      have "\<not> sends_ok (Send_err w) [Send Open]
                (frame_calls (butlast ?bs) @ [Send (Chunk (last ?bs))])"
        using fail by (simp add: sends_ok_append)
      then have "\<not> sends_ok (Send_err w) [] (Send Open # frame_calls ?bs)"
        using frame_calls_butlast_last [OF ne] by simp
      with a show ?thesis by blast
    qed
  qed
  with ff re show ?thesis by blast
qed

lemma ReadAtLeast_loop_exit:
  fixes rd :: "'s Reader"
  assumes "ReadAtLeast_loop rd len_buf mn s got err = Some y"
  shows "length (fst y) < mn \<longrightarrow> fst (snd y) \<noteq> None"
proof (rule ReadAtLeast_loop.raw_induct
    [where P = "\<lambda>rd len_buf mn s got err y. length (fst y) < mn \<longrightarrow> fst (snd y) \<noteq> None",
     OF _ assms])
  fix loop :: "'s Reader \<Rightarrow> nat \<Rightarrow> nat \<Rightarrow> 's \<Rightarrow> byte list \<Rightarrow> error option
                 \<Rightarrow> (byte list \<times> error option \<times> 's) option"
    and rd :: "'s Reader" and len_buf mn s got err y
  assume IH: "\<And>rd len_buf mn s got err y. loop rd len_buf mn s got err = Some y \<Longrightarrow>
                length (fst y) < mn \<longrightarrow> fst (snd y) \<noteq> None"
    and body: "(if length got < mn \<and> err = None then
                  (let r = rd s (len_buf - length got) in
                   loop rd len_buf mn (snd r) (got @ fst (fst r)) (snd (fst r)))
                else Some (got, err, s)) = Some y"
  show "length (fst y) < mn \<longrightarrow> fst (snd y) \<noteq> None"
  proof (cases "length got < mn \<and> err = None")
    case True
    let ?r = "rd s (len_buf - length got)"
    from True body have
      "loop rd len_buf mn (snd ?r) (got @ fst (fst ?r)) (snd (fst ?r)) = Some y"
      by (simp add: Let_def)
    then show ?thesis by (rule IH)
  next
    case False
    with body show ?thesis by auto
  qed
qed

lemma ReadFull_short:
  "ReadFull rd m s = Some (buf, err, s') \<Longrightarrow> length buf < m \<Longrightarrow> err \<noteq> None"
  using ReadAtLeast_loop_exit [of rd m m s "[]" None]
  by (auto simp: ReadFull_def ReadAtLeast_def split: bind_splits if_splits)

lemma fills_from_short:
  "fills_from rd s fl s' \<Longrightarrow> \<forall>f \<in> set fl. length (fst f) < 1024 \<longrightarrow> snd f \<noteq> None"
proof (induction rule: fills_from.induct)
  case (no_fill s)
  show ?case by simp
next
  case (one_more s buf err s1 fl s')
  from ReadFull_short [OF one_more.hyps(1)] one_more.IH show ?case by simp
qed

lemma concat_prefix: "prefix xs ys \<Longrightarrow> prefix (concat xs) (concat ys)"
  by (auto simp: prefix_def)

lemma stopped_at_failed_Send:
  assumes "\<not> sends_ok sendf [] (Send Open # frame_calls bs)"
    and "sends_ok sendf [] (butlast (Send Open # frame_calls bs))"
  shows "\<exists>cs0 m. Send Open # frame_calls bs = cs0 @ [Send m] \<and> sends_ok sendf [] cs0
           \<and> sendf cs0 m \<noteq> None"
proof -
  define full where "full = Send Open # frame_calls bs"
  define cs0 where "cs0 = butlast full"
  obtain m where m: "full = cs0 @ [Send m]"
  proof (cases "bs = []")
    case True
    then have "full = cs0 @ [Send Open]"
      by (simp add: full_def cs0_def frame_calls_Nil)
    then show ?thesis by (rule that)
  next
    case False
    have "full = (Send Open # frame_calls (butlast bs)) @ [Send (Chunk (last bs))]"
      using frame_calls_butlast_last [OF False] by (simp add: full_def)
    then have "full = cs0 @ [Send (Chunk (last bs))]"
      unfolding cs0_def by (metis butlast_snoc)
    then show ?thesis by (rule that)
  qed
  have ok: "sends_ok sendf [] cs0"
    unfolding cs0_def full_def by (rule assms(2))
  have "\<not> sends_ok sendf [] full"
    unfolding full_def by (rule assms(1))
  then have "\<not> sends_ok sendf [] (cs0 @ [Send m])"
    unfolding m .
  with ok have "sendf cs0 m \<noteq> None"
    by (simp add: sends_ok_append)
  with m ok show ?thesis
    unfolding full_def by blast
qed

lemma Run_loop_failing_Send:
  assumes "fills_from (Read w) s fl s'"
    and "\<not> sends_ok (Send_err w) cs (frame_calls (map fst fl))"
  shows "\<exists>y. Run_loop w s cs fs = Some y"
  using assms
proof (induction arbitrary: cs fs rule: fills_from.induct)
  case (no_fill s)
  then show ?case by (simp add: frame_calls_Nil)
next
  case (one_more s buf err0 sa fl s1)
  show ?case
  proof (cases "Send_err w cs (Chunk buf)")
    case (Some e)
    from Run_loop_fail [OF one_more.hyps(1) one_more.hyps(2) Some] show ?thesis by blast
  next
    case None
    from Run_loop_next [OF one_more.hyps(1) one_more.hyps(2) None] have
      step: "Run_loop w s cs fs
               = Run_loop w sa (cs @ [Send (Chunk buf)]) (fs @ [(length buf, err0)])" .
    from one_more.prems None have
      "\<not> sends_ok (Send_err w) (cs @ [Send (Chunk buf)]) (frame_calls (map fst fl))"
      by (simp add: frame_calls_Cons)
    from one_more.IH [OF this] step show ?thesis by simp
  qed
qed

lemma Run_returns:
  assumes "Init_err w = None" and "initReader w args = Inr (r, closer)"
    and "RestoreSnapshot_err w = None"
    and "Send_err w [] Open = None \<longrightarrow> (\<exists>y. Run_loop w (state r) [Send Open] [] = Some y)"
  shows "\<exists>out. Run w args = Some out"
proof (cases "Send_err w [] Open")
  case (Some e)
  with assms(1-3) show ?thesis by (simp add: Run_def)
next
  case None
  with assms(4) obtain err cs fs where
    "Run_loop w (state r) [Send Open] [] = Some (err, cs, fs)"
    by (metis prod_cases3)
  with assms(1-3) None show ?thesis
    by (simp add: Run_def split: option.splits)
qed

lemma prefix_frame_calls:
  "prefix bs F \<Longrightarrow> prefix (Send Open # frame_calls bs) (Send Open # frame_calls F @ cs)"
  by (auto simp: frame_calls_def prefix_def)

lemma no_chunks_world_reaches:
  "Init_err (no_chunks_world sc) = None" "RestoreSnapshot_err (no_chunks_world sc) = None"
  "initReader (no_chunks_world sc) [] = Inr (StdinFile sc, None)"
  "Read (no_chunks_world sc) = script_Read"
  by (simp_all add: no_chunks_world_def pipe_world_def initReader_def)

section \<open>The transfer\<close>

text \<open>
  Claim C1, as the code has it. Take a run that reaches the protocol (\<^verbatim>\<open>Init\<close> succeeds,
  \<^verbatim>\<open>initReader\<close> returns a reader, the stream is opened) on a finite byte source whose byte
  stream is \<open>B\<close>. The run returns, and the payloads of the Chunk frames it sends,
  concatenated in send order, are a prefix of \<open>B\<close>: nothing is duplicated, reordered or
  left out in between. No \<^verbatim>\<open>Send\<close> of the run failed exactly when the run arrives at the
  half-close, and then the payloads are \<open>B\<close> exactly. Otherwise the last call of the run is
  a \<^verbatim>\<open>Send\<close> that returned an error, after calls whose \<^verbatim>\<open>Send\<close>s all succeeded, and the run
  returns 1. For an empty source no Chunk frame is sent.
\<close>

theorem Run_sends_source_bytes:
  assumes "Init_err w = None" and "initReader w args = Inr (r, closer)"
    and "RestoreSnapshot_err w = None" and "delivers (Read w) (state r) B"
  shows "\<exists>out. Run w args = Some out
           \<and> prefix (concat (payloads (calls out))) B
           \<and> (sends_ok (Send_err w) [] (calls out) \<longleftrightarrow> CloseAndRecv \<in> set (calls out))
           \<and> (sends_ok (Send_err w) [] (calls out) \<longrightarrow> concat (payloads (calls out)) = B)
           \<and> (\<not> sends_ok (Send_err w) [] (calls out) \<longrightarrow>
                status out = 1
                \<and> (\<exists>cs0 m. calls out = cs0 @ [Send m] \<and> sends_ok (Send_err w) [] cs0
                      \<and> Send_err w cs0 m \<noteq> None))
           \<and> (B = [] \<longrightarrow> payloads (calls out) = [])"
proof -
  let ?F = "spec_frames 1024 B"
  from delivers_fills [OF assms(4)] obtain fl s1 s2 where
    ff: "fills_from (Read w) (state r) fl s1" and F: "map fst fl = ?F"
    and z: "ReadFull (Read w) 1024 s1 = Some ([], Some EOF, s2)"
    by blast
  from Run_on_ending_source [OF assms(1-3) ff z] F obtain out bs where
    run: "Run w args = Some out" and pre: "prefix bs ?F" and re: "run_ends w bs out"
    and all: "sends_ok (Send_err w) [] (Send Open # frame_calls bs) \<longrightarrow> bs = ?F"
    by auto
  have B: "concat ?F = B"
    by (simp add: concat_spec_frames)
  from pre B have cp: "prefix (concat bs) B"
    using concat_prefix by fastforce
  from pre have nil: "B = [] \<longrightarrow> bs = []"
    by (auto simp: spec_frames_Nil)
  let ?full = "Send Open # frame_calls bs"
  from re have "sends_ok (Send_err w) [] ?full \<and> calls out = ?full @ [CloseAndRecv]
      \<or> \<not> sends_ok (Send_err w) [] ?full \<and> sends_ok (Send_err w) [] (butlast ?full)
        \<and> calls out = ?full \<and> status out = 1"
    unfolding run_ends_def by auto
  then show ?thesis
  proof
    assume a: "sends_ok (Send_err w) [] ?full \<and> calls out = ?full @ [CloseAndRecv]"
    with all have bs: "bs = ?F" by blast
    from a have c: "calls out = ?full @ [CloseAndRecv]" by blast
    have p: "payloads (calls out) = bs"
      by (simp add: c payloads_append payloads_frame_calls)
    from a have ok: "sends_ok (Send_err w) [] (calls out)"
      by (simp only: c sends_ok_append) simp
    from c have h: "CloseAndRecv \<in> set (calls out)" by simp
    from run p bs B ok h nil show ?thesis by auto
  next
    assume a: "\<not> sends_ok (Send_err w) [] ?full \<and> sends_ok (Send_err w) [] (butlast ?full)
        \<and> calls out = ?full \<and> status out = 1"
    then have c: "calls out = ?full" and st: "status out = 1"
      and bad: "\<not> sends_ok (Send_err w) [] (calls out)"
      by simp_all
    have p: "payloads (calls out) = bs"
      by (simp add: c payloads_frame_calls)
    from c have h: "CloseAndRecv \<notin> set (calls out)"
      by (simp add: CloseAndRecv_frame_calls)
    from a stopped_at_failed_Send [of "Send_err w" bs] c have
      "\<exists>cs0 m. calls out = cs0 @ [Send m] \<and> sends_ok (Send_err w) [] cs0
         \<and> Send_err w cs0 m \<noteq> None"
      by simp
    with run p cp bad h st nil show ?thesis by auto
  qed
qed

text \<open>
  A pipe that delivers "a" and then "bc", on a stream that works: no \<^verbatim>\<open>Send\<close> fails, the run
  half-closes and the frames carry "abc". An empty pipe: no Chunk frame. A pipe that
  delivers "abc" on a stream that breaks after Open: the run returns 1 at the \<^verbatim>\<open>Send\<close> that
  failed.
\<close>

theorem Run_sends_source_bytes_witness:
  "(\<exists>out. Run (pipe_world [([97], None), ([98, 99], None)]) [] = Some out
      \<and> sends_ok (Send_err (pipe_world [([97], None), ([98, 99], None)])) [] (calls out)
      \<and> CloseAndRecv \<in> set (calls out)
      \<and> concat (payloads (calls out)) = [97, 98, 99])
   \<and> (\<exists>out. Run (pipe_world []) [] = Some out \<and> payloads (calls out) = [])
   \<and> (\<exists>out cs0 m. Run (no_chunks_world [([97, 98, 99], None)]) [] = Some out
         \<and> status out = 1 \<and> calls out = cs0 @ [Send m]
         \<and> sends_ok (Send_err (no_chunks_world [([97, 98, 99], None)])) [] cs0
         \<and> Send_err (no_chunks_world [([97, 98, 99], None)]) cs0 m \<noteq> None
         \<and> prefix (concat (payloads (calls out))) [97, 98, 99])"
proof -
  let ?sc = "[([97], None), ([98, 99], None)] :: (byte list \<times> error option) list"
  let ?sd = "[([97, 98, 99], None)] :: (byte list \<times> error option) list"
  let ?n = "no_chunks_world ?sd"
  have d: "delivers (Read (pipe_world ?sc)) (state (StdinFile ?sc)) [97, 98, 99]"
    using script_delivers [of ?sc] by (simp add: pipe_world_reaches)
  have d0: "delivers (Read (pipe_world [])) (state (StdinFile [])) []"
    using script_delivers [of "[]"] by (simp add: pipe_world_reaches)
  have dn: "delivers (Read ?n) (state (StdinFile ?sd)) [97, 98, 99]"
    using script_delivers [of ?sd] by (simp add: no_chunks_world_reaches)
  have ok: "sends_ok (Send_err (pipe_world sc)) [] cs" for sc cs
    by (rule sends_ok_always) (simp add: pipe_world_reaches)
  from Run_sends_source_bytes
    [OF pipe_world_reaches(1) pipe_world_reaches(3) pipe_world_reaches(2) d] ok [of ?sc]
  have 1: "\<exists>out. Run (pipe_world ?sc) [] = Some out
      \<and> sends_ok (Send_err (pipe_world ?sc)) [] (calls out)
      \<and> CloseAndRecv \<in> set (calls out)
      \<and> concat (payloads (calls out)) = [97, 98, 99]"
    by blast
  from Run_sends_source_bytes
    [OF pipe_world_reaches(1) pipe_world_reaches(3) pipe_world_reaches(2) d0]
  have 2: "\<exists>out. Run (pipe_world []) [] = Some out \<and> payloads (calls out) = []"
    by blast
  have ev: "Run ?n [] =
      Some \<lparr>status = 1, stderr = [''failed to write snapshot data: EOF''], ui_Output = [],
            calls = [Send Open, Send (Chunk [97, 98, 99])], closed = False,
            fills = [(3, Some ErrUnexpectedEOF)]\<rparr>"
    by code_simp
  have bad: "\<not> sends_ok (Send_err ?n) [] [Send Open, Send (Chunk [97, 98, 99])]"
    by (simp add: no_chunks_world_def)
  from Run_sends_source_bytes
    [OF no_chunks_world_reaches(1) no_chunks_world_reaches(3) no_chunks_world_reaches(2) dn]
  obtain out where run: "Run ?n [] = Some out"
    and pre: "prefix (concat (payloads (calls out))) [97, 98, 99]"
    and stop: "\<not> sends_ok (Send_err ?n) [] (calls out) \<longrightarrow>
                status out = 1
                \<and> (\<exists>cs0 m. calls out = cs0 @ [Send m] \<and> sends_ok (Send_err ?n) [] cs0
                      \<and> Send_err ?n cs0 m \<noteq> None)"
    by (elim exE conjE) (rule that, assumption+)
  from run ev have c: "calls out = [Send Open, Send (Chunk [97, 98, 99])]"
    by auto
  have "\<not> sends_ok (Send_err ?n) [] (calls out)"
    unfolding c by (rule bad)
  with stop run pre have 3: "\<exists>out cs0 m. Run ?n [] = Some out
         \<and> status out = 1 \<and> calls out = cs0 @ [Send m]
         \<and> sends_ok (Send_err ?n) [] cs0
         \<and> Send_err ?n cs0 m \<noteq> None
         \<and> prefix (concat (payloads (calls out))) [97, 98, 99]"
    by blast
  from 1 2 3 show ?thesis by (intro conjI)
qed

text \<open>
  The claim without the condition fails: a source of 1500 bytes on a stream that breaks
  after Open. The first \<^verbatim>\<open>Send\<close> of a Chunk fails, the run returns 1, and the frames sent
  carry the first 1024 bytes only.
\<close>

theorem transfer_cut_short:
  "Run (no_chunks_world [(replicate 1500 65, None)]) []
     = Some \<lparr>status = 1, stderr = [''failed to write snapshot data: EOF''], ui_Output = [],
             calls = [Send Open, Send (Chunk (replicate 1024 65))], closed = False,
             fills = [(1024, None)]\<rparr>
   \<and> concat (payloads [Send Open, Send (Chunk (replicate 1024 65))]) \<noteq> replicate 1500 65"
proof -
  let ?w = "no_chunks_world [(replicate 1500 65, None)]"
  have l: "Run_loop ?w [(replicate 1500 65, None)] [Send Open] []
             = Some (Some EOF, [Send Open, Send (Chunk (replicate 1024 65))], [(1024, None)])"
    by (subst Run_loop_script)
       (simp_all add: no_chunks_world_def pipe_world_def spec_frames_Cons fill_of_def)
  have i: "Init_err ?w = None" "RestoreSnapshot_err ?w = None"
    "initReader ?w [] = Inr (StdinFile [(replicate 1500 65, None)], None)"
    "Send_err ?w [] Open = None"
    by (simp_all add: no_chunks_world_def pipe_world_def initReader_def)
  show ?thesis
    by (simp add: Run_def i l)
qed

text \<open>
  Claim C2 (a read that fails with an error other than end-of-stream aborts the transfer
  and is reported). The code does not do that. Standard input delivers "abc" and then
  fails with an input/output error, again and again. The first buffer fill returns 3
  bytes and the error; the loop sends the 3 bytes as a Chunk and fills the buffer again;
  the second fill returns 0 bytes and the error, which ends the loop as the end of the
  source would. The run half-closes, reports success and returns 0; nothing is written to
  standard error.
\<close>

theorem read_failure_ignored:
  "Run (pipe_world [([97, 98, 99], None),
                    ([], Some (Err ''read /dev/stdin: input/output error'')),
                    ([], Some (Err ''read /dev/stdin: input/output error''))]) []
     = Some \<lparr>status = 0, stderr = [], ui_Output = [''Server data restored.''],
             calls = [Send Open, Send (Chunk [97, 98, 99]), CloseAndRecv], closed = False,
             fills = [(3, Some (Err ''read /dev/stdin: input/output error'')),
                      (0, Some (Err ''read /dev/stdin: input/output error''))]\<rparr>"
  by code_simp

text \<open>
  Claim C3, as the code has it. Whenever a run returns and the reader keeps the contract of
  \<^verbatim>\<open>Read\<close>, every Chunk frame it sent carries at most 1024 bytes. In every run that reaches
  the protocol and returns, the Chunk frames are successive buffer fills of the source,
  one frame per fill, in order, and a frame of fewer than 1024 bytes is a fill that
  \<^verbatim>\<open>io.ReadFull\<close> returned with an error (\<^verbatim>\<open>io.ErrUnexpectedEOF\<close> at the end of the stream, or
  the error of a read). On a finite byte source, whatever number of bytes each read
  delivers, the run returns and every Chunk frame but the last one sent carries exactly
  1024 bytes.
\<close>

theorem Chunk_sizes:
  "(\<forall>out. Run w args = Some out \<and> conforms (Read w) \<longrightarrow>
       (\<forall>b \<in> set (payloads (calls out)). length b \<le> 1024))
   \<and> (\<forall>out. Init_err w = None \<and> initReader w args = Inr (r, closer)
          \<and> RestoreSnapshot_err w = None \<and> Run w args = Some out \<longrightarrow>
        (\<exists>fl s'. fills_from (Read w) (state r) fl s'
           \<and> payloads (calls out) = map fst fl
           \<and> (\<forall>f \<in> set fl. length (fst f) < 1024 \<longrightarrow> snd f \<noteq> None)))
   \<and> (Init_err w = None \<and> initReader w args = Inr (r, closer)
        \<and> RestoreSnapshot_err w = None \<and> delivers (Read w) (state r) B \<longrightarrow>
       (\<exists>out. Run w args = Some out
          \<and> (\<forall>b \<in> set (payloads (calls out)). length b \<le> 1024)
          \<and> (\<forall>b \<in> set (butlast (payloads (calls out))). length b = 1024)))"
proof (intro conjI allI impI)
  fix out
  assume "Run w args = Some out \<and> conforms (Read w)"
  with Run_invariant [of w args out] show "\<forall>b \<in> set (payloads (calls out)). length b \<le> 1024"
    by (simp add: chunks_ok_def set_payloads)
next
  fix out
  assume "Init_err w = None \<and> initReader w args = Inr (r, closer)
          \<and> RestoreSnapshot_err w = None \<and> Run w args = Some out"
  then have h: "Init_err w = None" "initReader w args = Inr (r, closer)"
    "RestoreSnapshot_err w = None" "Run w args = Some out"
    by simp_all
  from Run_stops [OF h] obtain fl s' where
    ff: "fills_from (Read w) (state r) fl s'" and re: "run_ends w (map fst fl) out"
    by blast
  from re have "payloads (calls out) = map fst fl"
    unfolding run_ends_def by (auto simp: payloads_append payloads_frame_calls)
  with ff fills_from_short [OF ff] show "\<exists>fl s'. fills_from (Read w) (state r) fl s'
           \<and> payloads (calls out) = map fst fl
           \<and> (\<forall>f \<in> set fl. length (fst f) < 1024 \<longrightarrow> snd f \<noteq> None)"
    by blast
next
  let ?F = "spec_frames 1024 B"
  assume "Init_err w = None \<and> initReader w args = Inr (r, closer)
        \<and> RestoreSnapshot_err w = None \<and> delivers (Read w) (state r) B"
  then have h: "Init_err w = None" "initReader w args = Inr (r, closer)"
    "RestoreSnapshot_err w = None" "delivers (Read w) (state r) B"
    by simp_all
  from Run_on_finite_source [OF h] obtain out k where
    run: "Run w args = Some out" and k: "k \<le> length ?F"
    and c: "calls out = Send Open # frame_calls (take k ?F) \<or> calls out = transfer_calls B"
    by blast
  from c have "payloads (calls out) = take k ?F \<or> payloads (calls out) = ?F"
    by (auto simp: transfer_calls_def payloads_append payloads_frame_calls)
  then have sub: "set (payloads (calls out)) \<subseteq> set ?F"
    and bl: "set (butlast (payloads (calls out))) \<subseteq> set (butlast ?F)"
    using butlast_take_subset [OF k] by (auto dest: in_set_takeD)
  from sub have "\<forall>b \<in> set (payloads (calls out)). length b \<le> 1024"
    using spec_frames_bounds [of 1024 _ B] by auto
  moreover from bl have "\<forall>b \<in> set (butlast (payloads (calls out))). length b = 1024"
    using spec_frames_full [of 1024 _ B] by auto
  ultimately show "\<exists>out. Run w args = Some out
          \<and> (\<forall>b \<in> set (payloads (calls out)). length b \<le> 1024)
          \<and> (\<forall>b \<in> set (butlast (payloads (calls out))). length b = 1024)"
    using run by blast
qed

text \<open>
  A pipe that delivers 1500 bytes one byte per read: two frames, of 1024 and of 476 bytes,
  which are the two fills of the run; the fill of 476 bytes came with an error.
\<close>

theorem Chunk_sizes_witness:
  "\<exists>out fl s'. Run (pipe_world (replicate 1500 ([65], None))) [] = Some out
      \<and> payloads (calls out) = [replicate 1024 65, replicate 476 65]
      \<and> list_all (\<lambda>b. length b \<le> 1024) (payloads (calls out))
      \<and> list_all (\<lambda>b. length b = 1024) (butlast (payloads (calls out)))
      \<and> fills_from script_Read (replicate 1500 ([65], None)) fl s'
      \<and> map fst fl = payloads (calls out)
      \<and> snd (last fl) \<noteq> None"
proof -
  let ?sc = "replicate 1500 ([65], None) :: (byte list \<times> error option) list"
  let ?w = "pipe_world ?sc"
  let ?B = "replicate 1500 65 :: byte list"
  have B: "concat (map fst ?sc) = ?B"
    by (simp add: concat_replicate_single)
  have d: "delivers (Read ?w) (state (StdinFile ?sc)) ?B"
    using script_delivers [of ?sc] B by (simp add: pipe_world_reaches)
  have c: "conforms (Read ?w)"
    by (simp add: pipe_world_reaches conforms_def script_conforms)
  note h = pipe_world_reaches(1) pipe_world_reaches(3) pipe_world_reaches(2) d
  from Run_on_finite_source [OF h] pipe_world_reaches(4) [of ?sc] obtain out where
    run: "Run ?w [] = Some out" and cs: "calls out = transfer_calls ?B"
    by auto
  have "spec_frames 1024 ?B = [replicate 1024 65, replicate 476 65]"
    by (simp add: spec_frames_Cons spec_frames_Nil)
  with cs have p: "payloads (calls out) = [replicate 1024 65, replicate 476 65]"
    by (simp add: transfer_calls_def payloads_append payloads_frame_calls)
  note T = Chunk_sizes [where w = ?w and args = "[]" and r = "StdinFile ?sc"
      and closer = None and B = ?B]
  from T h run obtain fl s' where
    ff: "fills_from (Read ?w) (state (StdinFile ?sc)) fl s'"
    and m: "payloads (calls out) = map fst fl"
    and short: "\<forall>f \<in> set fl. length (fst f) < 1024 \<longrightarrow> snd f \<noteq> None"
    by blast
  from ff have ff': "fills_from script_Read ?sc fl s'"
    by (simp add: pipe_world_reaches)
  from m p have ne: "fl \<noteq> []" by auto
  from m p ne have "fst (last fl) = replicate 476 65"
    by (metis last_map last.simps list.distinct(1))
  with short ne have l: "snd (last fl) \<noteq> None"
    by (metis last_in_set length_replicate numeral_less_iff semiring_norm(76)
        less_num_simps)
  from T c run p have sz: "list_all (\<lambda>b. length b \<le> 1024) (payloads (calls out))"
    by (auto simp: list_all_iff)
  from T h run p have full: "list_all (\<lambda>b. length b = 1024) (butlast (payloads (calls out)))"
    by (auto simp: list_all_iff)
  from run p sz full ff' m l show ?thesis
    by (intro exI [of _ out] exI [of _ fl] exI [of _ s']) simp
qed

text \<open>
  The claim for every source fails. A file delivers "abc", reports \<^verbatim>\<open>io.EOF\<close>, and has grown
  by "def" when it is read again. The first fill returns 3 bytes with
  \<^verbatim>\<open>io.ErrUnexpectedEOF\<close>, which the loop drops; the second fill returns the 3 new bytes. The
  run sends two Chunk frames of 3 bytes: the first one is not the last, and it carries
  fewer than 1024 bytes.
\<close>

theorem short_frame_before_last:
  "Run (file_world ''backup.snap''
          [([97, 98, 99], None), ([], Some EOF), ([100, 101, 102], None)]) [''backup.snap'']
     = Some \<lparr>status = 0, stderr = [],
             ui_Output = [''Server data restored from 'backup.snap'.''],
             calls = [Send Open, Send (Chunk [97, 98, 99]), Send (Chunk [100, 101, 102]),
                      CloseAndRecv],
             closed = True,
             fills = [(3, Some ErrUnexpectedEOF), (3, Some ErrUnexpectedEOF), (0, Some EOF)]\<rparr>"
  by code_simp

text \<open>
  Claim C4, as the code has it. Take a run that reaches the protocol, on any source and any
  stream. When the run returns, its calls on the stream start with Open, which is sent
  once; then come the Chunk frames, one per buffer fill of the source, in the order of the
  fills. Either no \<^verbatim>\<open>Send\<close> of the run failed: then a fill returned zero bytes, the run made
  exactly one half-close, as its last call, after the last Chunk, and the result that
  \<^verbatim>\<open>CloseAndRecv\<close> waited for decides the exit status. Or the last call of the run is a \<^verbatim>\<open>Send\<close>,
  of Open or of a Chunk, that returned an error, after calls whose \<^verbatim>\<open>Send\<close>s all succeeded:
  then the run returns 1 and makes no half-close. The run returns whenever the source, fill
  after fill, comes to a fill of zero bytes, and whenever a \<^verbatim>\<open>Send\<close> fails. On a finite byte
  source with byte stream \<open>B\<close> the calls are a prefix of the session order of \<open>B\<close> (Open, the
  frames of \<open>B\<close>, the half-close), and the whole of it when no \<^verbatim>\<open>Send\<close> failed.
\<close>

theorem Run_call_order:
  assumes "Init_err w = None" and "initReader w args = Inr (r, closer)"
    and "RestoreSnapshot_err w = None"
  shows "(\<forall>out. Run w args = Some out \<longrightarrow>
           hd (calls out) = Send Open \<and> Send Open \<notin> set (tl (calls out))
           \<and> (\<exists>fl s'. fills_from (Read w) (state r) fl s'
                \<and> (calls out = Send Open # frame_calls (map fst fl) @ [CloseAndRecv]
                      \<and> sends_ok (Send_err w) [] (calls out)
                      \<and> (\<exists>e s''. ReadFull (Read w) 1024 s' = Some ([], e, s''))
                      \<and> (status out = 0 \<longleftrightarrow> CloseAndRecv_err w (butlast (calls out)) = None)
                      \<and> (status out = 0 \<or> status out = 1)
                    \<or> calls out = Send Open # frame_calls (map fst fl)
                      \<and> status out = 1
                      \<and> (\<exists>cs0 m. calls out = cs0 @ [Send m] \<and> sends_ok (Send_err w) [] cs0
                            \<and> Send_err w cs0 m \<noteq> None))))
       \<and> (\<forall>fl s1.
             fills_from (Read w) (state r) fl s1
               \<and> ((\<exists>e0 s2. ReadFull (Read w) 1024 s1 = Some ([], e0, s2))
                    \<or> \<not> sends_ok (Send_err w) [] (Send Open # frame_calls (map fst fl))) \<longrightarrow>
             (\<exists>out. Run w args = Some out))
       \<and> (\<forall>B. delivers (Read w) (state r) B \<longrightarrow>
             (\<exists>out. Run w args = Some out \<and> prefix (calls out) (transfer_calls B)
                \<and> (sends_ok (Send_err w) [] (calls out) \<longrightarrow> calls out = transfer_calls B)))"
proof (intro conjI allI impI)
  fix out
  assume run: "Run w args = Some out"
  from Run_stops [OF assms run] obtain fl s' where
    ff: "fills_from (Read w) (state r) fl s'" and re: "run_ends w (map fst fl) out"
    and z: "sends_ok (Send_err w) [] (Send Open # frame_calls (map fst fl)) \<longrightarrow>
              (\<exists>e s''. ReadFull (Read w) 1024 s' = Some ([], e, s''))"
    by blast
  let ?full = "Send Open # frame_calls (map fst fl)"
  from re have c: "calls out = ?full @ [CloseAndRecv] \<or> calls out = ?full"
    unfolding run_ends_def by auto
  from c show "hd (calls out) = Send Open" by auto
  from c show "Send Open \<notin> set (tl (calls out))"
    by (auto simp: Open_frame_calls)
  from re have "sends_ok (Send_err w) [] ?full \<and> calls out = ?full @ [CloseAndRecv]
        \<and> (status out = 0 \<longleftrightarrow> CloseAndRecv_err w ?full = None)
        \<and> (status out = 0 \<or> status out = 1)
      \<or> \<not> sends_ok (Send_err w) [] ?full \<and> sends_ok (Send_err w) [] (butlast ?full)
        \<and> calls out = ?full \<and> status out = 1"
    unfolding run_ends_def by auto
  then have "calls out = Send Open # frame_calls (map fst fl) @ [CloseAndRecv]
                    \<and> sends_ok (Send_err w) [] (calls out)
                    \<and> (\<exists>e s''. ReadFull (Read w) 1024 s' = Some ([], e, s''))
                    \<and> (status out = 0 \<longleftrightarrow> CloseAndRecv_err w (butlast (calls out)) = None)
                    \<and> (status out = 0 \<or> status out = 1)
                  \<or> calls out = Send Open # frame_calls (map fst fl)
                    \<and> status out = 1
                    \<and> (\<exists>cs0 m. calls out = cs0 @ [Send m] \<and> sends_ok (Send_err w) [] cs0
                          \<and> Send_err w cs0 m \<noteq> None)"
  proof
    assume a: "sends_ok (Send_err w) [] ?full \<and> calls out = ?full @ [CloseAndRecv]
        \<and> (status out = 0 \<longleftrightarrow> CloseAndRecv_err w ?full = None)
        \<and> (status out = 0 \<or> status out = 1)"
    then have c: "calls out = ?full @ [CloseAndRecv]" by blast
    then have bl: "butlast (calls out) = ?full"
      by (simp only: butlast_snoc)
    from a have ok: "sends_ok (Send_err w) [] (calls out)"
      by (simp only: c sends_ok_append) simp
    from a z have zero: "\<exists>e s''. ReadFull (Read w) 1024 s' = Some ([], e, s'')"
      by blast
    from a have "(status out = 0 \<longleftrightarrow> CloseAndRecv_err w ?full = None)
                       \<and> (status out = 0 \<or> status out = 1)"
      by blast
    then have st: "(status out = 0 \<longleftrightarrow> CloseAndRecv_err w (butlast (calls out)) = None)
                       \<and> (status out = 0 \<or> status out = 1)"
      unfolding bl .
    from c have "calls out = Send Open # frame_calls (map fst fl) @ [CloseAndRecv]"
      by simp
    with ok zero st show ?thesis by blast
  next
    assume a: "\<not> sends_ok (Send_err w) [] ?full \<and> sends_ok (Send_err w) [] (butlast ?full)
        \<and> calls out = ?full \<and> status out = 1"
    with stopped_at_failed_Send [of "Send_err w" "map fst fl"] show ?thesis
      by simp
  qed
  with ff show "\<exists>fl s'. fills_from (Read w) (state r) fl s'
              \<and> (calls out = Send Open # frame_calls (map fst fl) @ [CloseAndRecv]
                    \<and> sends_ok (Send_err w) [] (calls out)
                    \<and> (\<exists>e s''. ReadFull (Read w) 1024 s' = Some ([], e, s''))
                    \<and> (status out = 0 \<longleftrightarrow> CloseAndRecv_err w (butlast (calls out)) = None)
                    \<and> (status out = 0 \<or> status out = 1)
                  \<or> calls out = Send Open # frame_calls (map fst fl)
                    \<and> status out = 1
                    \<and> (\<exists>cs0 m. calls out = cs0 @ [Send m] \<and> sends_ok (Send_err w) [] cs0
                          \<and> Send_err w cs0 m \<noteq> None))"
    by - (rule exI [of _ fl], rule exI [of _ s'], rule conjI, assumption+)
next
  fix fl s1
  assume h: "fills_from (Read w) (state r) fl s1
               \<and> ((\<exists>e0 s2. ReadFull (Read w) 1024 s1 = Some ([], e0, s2))
                    \<or> \<not> sends_ok (Send_err w) [] (Send Open # frame_calls (map fst fl)))"
  then have ff: "fills_from (Read w) (state r) fl s1"
    by blast
  from h have "(\<exists>e0 s2. ReadFull (Read w) 1024 s1 = Some ([], e0, s2))
                 \<or> \<not> sends_ok (Send_err w) [] (Send Open # frame_calls (map fst fl))"
    by blast
  then show "\<exists>out. Run w args = Some out"
  proof
    assume "\<exists>e0 s2. ReadFull (Read w) 1024 s1 = Some ([], e0, s2)"
    then obtain e0 s2 where z: "ReadFull (Read w) 1024 s1 = Some ([], e0, s2)"
      by blast
    from Run_on_ending_source [OF assms ff z] show ?thesis
      by blast
  next
    assume bad: "\<not> sends_ok (Send_err w) [] (Send Open # frame_calls (map fst fl))"
    have "Send_err w [] Open = None \<longrightarrow> (\<exists>y. Run_loop w (state r) [Send Open] [] = Some y)"
    proof
      assume "Send_err w [] Open = None"
      with bad have "\<not> sends_ok (Send_err w) [Send Open] (frame_calls (map fst fl))"
        by simp
      from Run_loop_failing_Send [OF ff this] show
        "\<exists>y. Run_loop w (state r) [Send Open] [] = Some y" .
    qed
    from Run_returns [OF assms this] show ?thesis .
  qed
next
  fix B
  let ?F = "spec_frames 1024 B"
  assume d: "delivers (Read w) (state r) B"
  from delivers_fills [OF d] obtain fl s1 s2 where
    ff: "fills_from (Read w) (state r) fl s1" and F: "map fst fl = ?F"
    and z: "ReadFull (Read w) 1024 s1 = Some ([], Some EOF, s2)"
    by blast
  from Run_on_ending_source [OF assms ff z] F obtain out bs where
    run: "Run w args = Some out" and pre: "prefix bs ?F" and re: "run_ends w bs out"
    and all: "sends_ok (Send_err w) [] (Send Open # frame_calls bs) \<longrightarrow> bs = ?F"
    by auto
  let ?full = "Send Open # frame_calls bs"
  from re have "sends_ok (Send_err w) [] ?full \<and> calls out = ?full @ [CloseAndRecv]
      \<or> \<not> sends_ok (Send_err w) [] ?full \<and> calls out = ?full"
    unfolding run_ends_def by auto
  then have "prefix (calls out) (transfer_calls B)
                \<and> (sends_ok (Send_err w) [] (calls out) \<longrightarrow> calls out = transfer_calls B)"
  proof
    assume a: "sends_ok (Send_err w) [] ?full \<and> calls out = ?full @ [CloseAndRecv]"
    with all have "bs = ?F" by blast
    with a have "calls out = transfer_calls B"
      by (simp add: transfer_calls_def)
    then show ?thesis by simp
  next
    assume a: "\<not> sends_ok (Send_err w) [] ?full \<and> calls out = ?full"
    then have c: "calls out = ?full" and bad: "\<not> sends_ok (Send_err w) [] (calls out)"
      by simp_all
    from prefix_frame_calls [OF pre, of "[CloseAndRecv]"] have
      "prefix (calls out) (transfer_calls B)"
      unfolding c transfer_calls_def .
    with bad show ?thesis by blast
  qed
  with run show "\<exists>out. Run w args = Some out \<and> prefix (calls out) (transfer_calls B)
                \<and> (sends_ok (Send_err w) [] (calls out) \<longrightarrow> calls out = transfer_calls B)"
    by blast
qed

text \<open>
  A pipe that delivers "ab", then nothing, then "c", on a stream that works: the source has
  one fill of 3 bytes and then a fill of zero bytes, so the run returns; its calls are
  Open, one Chunk "abc" and the half-close, and it returns 0.
\<close>

theorem Run_call_order_witness:
  "\<exists>out fl s'. Run (pipe_world [([97, 98], None), ([], None), ([99], None)]) [] = Some out
      \<and> calls out = [Send Open, Send (Chunk [97, 98, 99]), CloseAndRecv]
      \<and> status out = 0
      \<and> fills_from script_Read [([97, 98], None), ([], None), ([99], None)] fl s'
      \<and> calls out = Send Open # frame_calls (map fst fl) @ [CloseAndRecv]"
proof -
  let ?sc = "[([97, 98], None), ([], None), ([99], None)] :: (byte list \<times> error option) list"
  let ?w = "pipe_world ?sc"
  have d: "delivers (Read ?w) (state (StdinFile ?sc)) [97, 98, 99]"
    using script_delivers [of ?sc] by (simp add: pipe_world_reaches)
  have t: "transfer_calls [97, 98, 99] = [Send Open, Send (Chunk [97, 98, 99]), CloseAndRecv]"
    by (simp add: transfer_calls_def frame_calls_def spec_frames_Cons spec_frames_Nil)
  have rf1: "ReadFull script_Read 1024 ?sc = Some ([97, 98, 99], Some ErrUnexpectedEOF, [])"
    by code_simp
  have rf2: "ReadFull script_Read 1024 [] = Some ([], Some EOF, [])"
    by code_simp
  have "fills_from script_Read ?sc [([97, 98, 99], Some ErrUnexpectedEOF)] []"
    by (rule fills_from.one_more [OF rf1 _ fills_from.no_fill]) simp
  then have ff: "fills_from (Read ?w) (state (StdinFile ?sc))
                   [([97, 98, 99], Some ErrUnexpectedEOF)] []"
    by (simp add: pipe_world_reaches)
  from rf2 have z: "ReadFull (Read ?w) 1024 [] = Some ([], Some EOF, [])"
    by (simp add: pipe_world_reaches)
  have ok: "sends_ok (Send_err ?w) [] cs" for cs
    by (rule sends_ok_always) (simp add: pipe_world_reaches)
  have never: "Send_err ?w cs m = None" for cs m
    by (simp add: pipe_world_reaches)
  have recv: "CloseAndRecv_err ?w cs = None" for cs
    by (simp add: pipe_world_def)
  note T = Run_call_order [where w = ?w and args = "[]" and r = "StdinFile ?sc"
      and closer = None,
      OF pipe_world_reaches(1) pipe_world_reaches(3) pipe_world_reaches(2)]
  from T [THEN conjunct2, THEN conjunct1] ff z obtain out where run: "Run ?w [] = Some out"
    by blast
  from T [THEN conjunct2, THEN conjunct2] d obtain out' where
    "Run ?w [] = Some out'"
    and "sends_ok (Send_err ?w) [] (calls out') \<longrightarrow> calls out' = transfer_calls [97, 98, 99]"
    by blast
  with run ok t have c: "calls out = [Send Open, Send (Chunk [97, 98, 99]), CloseAndRecv]"
    by simp
  from T [THEN conjunct1] run obtain fl s' where
    f: "fills_from (Read ?w) (state (StdinFile ?sc)) fl s'"
    and o: "calls out = Send Open # frame_calls (map fst fl) @ [CloseAndRecv]
                      \<and> sends_ok (Send_err ?w) [] (calls out)
                      \<and> (\<exists>e s''. ReadFull (Read ?w) 1024 s' = Some ([], e, s''))
                      \<and> (status out = 0 \<longleftrightarrow> CloseAndRecv_err ?w (butlast (calls out)) = None)
                      \<and> (status out = 0 \<or> status out = 1)
                    \<or> calls out = Send Open # frame_calls (map fst fl)
                      \<and> status out = 1
                      \<and> (\<exists>cs0 m. calls out = cs0 @ [Send m] \<and> sends_ok (Send_err ?w) [] cs0
                            \<and> Send_err ?w cs0 m \<noteq> None)"
    by blast
  have nb: "\<not> (\<exists>cs0 m. calls out = cs0 @ [Send m] \<and> sends_ok (Send_err ?w) [] cs0
                  \<and> Send_err ?w cs0 m \<noteq> None)"
    using never by simp
  from o nb have a: "calls out = Send Open # frame_calls (map fst fl) @ [CloseAndRecv]"
    and s0: "status out = 0 \<longleftrightarrow> CloseAndRecv_err ?w (butlast (calls out)) = None"
    by blast+
  from s0 recv [of "butlast (calls out)"] have st: "status out = 0"
    by simp
  from f have "fills_from script_Read ?sc fl s'"
    by (simp add: pipe_world_reaches)
  with run c st a show ?thesis
    by (intro exI [of _ out] exI [of _ fl] exI [of _ s']) simp
qed

text \<open>
  The claim for every run fails: on a stream that breaks after Open the run sends Open and
  one Chunk, and returns 1 without a half-close.
\<close>

theorem half_close_skipped:
  "Run (no_chunks_world [([97, 98, 99], None)]) []
     = Some \<lparr>status = 1, stderr = [''failed to write snapshot data: EOF''], ui_Output = [],
             calls = [Send Open, Send (Chunk [97, 98, 99])], closed = False,
             fills = [(3, Some ErrUnexpectedEOF)]\<rparr>"
  by code_simp

text \<open>
  Claim C6 (exit status 0 exactly when the whole transfer succeeds, 1 on every failure,
  a failure to read the source among them). The code returns 0 after a failed read. The
  file is opened, delivers 3 bytes and then fails with an input/output error. The three
  bytes are sent, the run half-closes, the server accepts, and \<^verbatim>\<open>Run\<close> returns 0 with the
  message of success; the read error is lost.
\<close>

theorem read_failure_exit_status:
  "Run (file_world ''backup.snap''
          [([1, 2, 3], None),
           ([], Some (Err ''read backup.snap: input/output error'')),
           ([], Some (Err ''read backup.snap: input/output error''))]) [''backup.snap'']
     = Some \<lparr>status = 0, stderr = [],
             ui_Output = [''Server data restored from 'backup.snap'.''],
             calls = [Send Open, Send (Chunk [1, 2, 3]), CloseAndRecv], closed = True,
             fills = [(3, Some (Err ''read backup.snap: input/output error'')),
                      (0, Some (Err ''read backup.snap: input/output error''))]\<rparr>"
  by code_simp

text \<open>
  Claim C7. \<^verbatim>\<open>initReader\<close> with a first argument other than "-" opens that path and returns
  the file as reader and closer, or the error of \<^verbatim>\<open>os.Open\<close>; with a first argument "-" it
  returns standard input with no closer, terminal or not; with no argument it returns
  standard input with no closer unless standard input is a terminal, and then it returns
  the error "stdin is a terminal, refusing to use (use '-' to force)" and no reader.
\<close>

theorem initReader_policy:
  "(p \<noteq> ''-'' \<longrightarrow>
      initReader w (p # rest)
        = (case os_Open w p of
             Inl err \<Rightarrow> Inl err
           | Inr f \<Rightarrow> Inr (OpenedFile f, Some (OpenedFile f))))
   \<and> initReader w (''-'' # rest) = Inr (StdinFile (Stdin w), None)
   \<and> (\<not> IsTerminal w \<longrightarrow> initReader w [] = Inr (StdinFile (Stdin w), None))
   \<and> (IsTerminal w \<longrightarrow>
        initReader w [] = Inl (Err ''stdin is a terminal, refusing to use (use '-' to force)''))"
  by (simp add: initReader_def)

text \<open>
  A file that exists, a file that does not, "-" with a terminal as standard input, no
  argument with a pipe, and no argument with a terminal.
\<close>

theorem initReader_policy_witness:
  "initReader (file_world ''backup.snap'' [([97], None)]) [''backup.snap'']
     = Inr (OpenedFile [([97], None)], Some (OpenedFile [([97], None)]))
   \<and> initReader (file_world ''backup.snap'' [([97], None)]) [''missing.snap'']
     = Inl (Err ''open missing.snap: no such file or directory'')
   \<and> initReader (file_world ''backup.snap'' [([97], None)]) [''-''] = Inr (StdinFile [], None)
   \<and> initReader (pipe_world [([97], None)]) [] = Inr (StdinFile [([97], None)], None)
   \<and> initReader (file_world ''backup.snap'' [([97], None)]) []
     = Inl (Err ''stdin is a terminal, refusing to use (use '-' to force)'')"
proof -
  let ?f = "file_world ''backup.snap'' [([97], None)]"
  have a: "''backup.snap'' \<noteq> ''-''" "''missing.snap'' \<noteq> ''-''"
    by simp_all
  have t: "IsTerminal ?f" "\<not> IsTerminal (pipe_world [([97], None)])"
    by (simp_all add: file_world_def pipe_world_def)
  from a t
    initReader_policy [of "''backup.snap''" ?f "[]"]
    initReader_policy [of "''missing.snap''" ?f "[]"]
    initReader_policy [of "''-''" "pipe_world [([97], None)]" "[]"]
  show ?thesis
    by (simp add: file_world_def pipe_world_def)
qed

text \<open>
  Claim C8, as the code has it. Take a source that eventually yields zero new bytes: after
  the buffer fills \<open>fl\<close>, a fill returns no byte. Then from any state of the loop, and
  whatever the stream answers, the loop of \<^verbatim>\<open>Run\<close> terminates. It fills the buffer at least
  once; every fill but the last one returned at least one byte, so the loop never goes on
  after a fill of zero bytes; and the loop is left by \<^verbatim>\<open>break\<close> (result \<open>None\<close>) exactly when
  its last fill returned zero bytes, and then it has sent every fill of \<open>fl\<close> and no \<^verbatim>\<open>Send\<close>
  failed. The only other way out is \<^verbatim>\<open>return 1\<close>: then the last call of the loop is the \<^verbatim>\<open>Send\<close>
  of the Chunk of its last fill, that \<^verbatim>\<open>Send\<close> returned the error, and the \<^verbatim>\<open>Send\<close>s before it
  succeeded. The fills the loop made are the first fills of \<open>fl\<close>, one per Chunk, and the
  fill of zero bytes when it breaks. Every finite byte source is such a source, its fills
  being the frames of its byte stream.
\<close>

theorem Run_loop_terminates:
  "(fills_from (Read w) s fl s1 \<and> ReadFull (Read w) 1024 s1 = Some ([], e0, s2) \<longrightarrow>
      (\<exists>err cs' new bs. Run_loop w s cs fs = Some (err, cs', fs @ new)
           \<and> new \<noteq> [] \<and> (\<forall>f \<in> set (butlast new). 0 < fst f)
           \<and> (err = None \<longleftrightarrow> fst (last new) = 0)
           \<and> cs' = cs @ frame_calls bs \<and> prefix bs (map fst fl)
           \<and> (err = None \<longrightarrow> bs = map fst fl \<and> sends_ok (Send_err w) cs (frame_calls bs))
           \<and> (\<forall>e. err = Some e \<longrightarrow>
                 bs \<noteq> [] \<and> sends_ok (Send_err w) cs (frame_calls (butlast bs))
                 \<and> Send_err w (cs @ frame_calls (butlast bs)) (Chunk (last bs)) = Some e)
           \<and> new = map (\<lambda>f. (length (fst f), snd f)) (take (length bs) fl)
                     @ (if err = None then [(0, e0)] else [])))
   \<and> (delivers (Read w) s B \<longrightarrow>
        (\<exists>fl s1 s2. fills_from (Read w) s fl s1 \<and> map fst fl = spec_frames 1024 B
           \<and> ReadFull (Read w) 1024 s1 = Some ([], Some EOF, s2)))"
  using Run_loop_ends [of w s fl s1 e0 s2 cs fs] delivers_fills [of "Read w" s B]
  by blast

text \<open>
  A pipe that delivers "a" and then "bc": one fill of 3 bytes, then a fill of zero bytes.
  The loop sends one Chunk and is left by \<^verbatim>\<open>break\<close>.
\<close>

theorem Run_loop_terminates_witness:
  "fills_from script_Read [([97], None), ([98, 99], None)]
     [([97, 98, 99], Some ErrUnexpectedEOF)] []
   \<and> ReadFull script_Read 1024 [] = Some ([], Some EOF, [])
   \<and> Run_loop (pipe_world [([97], None), ([98, 99], None)]) [([97], None), ([98, 99], None)]
       [Send Open] []
     = Some (None, [Send Open, Send (Chunk [97, 98, 99])],
             [(3, Some ErrUnexpectedEOF), (0, Some EOF)])
   \<and> (\<exists>fl s1 s2. fills_from script_Read [([97], None), ([98, 99], None)] fl s1
         \<and> map fst fl = [[97, 98, 99]]
         \<and> ReadFull script_Read 1024 s1 = Some ([], Some EOF, s2))"
proof -
  let ?sc = "[([97], None), ([98, 99], None)] :: (byte list \<times> error option) list"
  let ?w = "pipe_world ?sc"
  let ?fl = "[([97, 98, 99], Some ErrUnexpectedEOF)] :: (byte list \<times> error option) list"
  have rf1: "ReadFull script_Read 1024 ?sc = Some ([97, 98, 99], Some ErrUnexpectedEOF, [])"
    by code_simp
  have rf2: "ReadFull script_Read 1024 [] = Some ([], Some EOF, [])"
    by code_simp
  have ff: "fills_from script_Read ?sc ?fl []"
    by (rule fills_from.one_more [OF rf1 _ fills_from.no_fill]) simp
  have d: "delivers (Read ?w) ?sc [97, 98, 99]"
    using script_delivers [of ?sc] by (simp add: pipe_world_reaches)
  have never: "Send_err ?w cs m = None" for cs m
    by (simp add: pipe_world_reaches)
  note T = Run_loop_terminates [where w = ?w and s = ?sc and fl = ?fl and ?s1.0 = "[]"
      and ?e0.0 = "Some EOF" and ?s2.0 = "[]" and cs = "[Send Open]" and fs = "[]"
      and B = "[97, 98, 99]"]
  from ff rf2 have pre: "fills_from (Read ?w) ?sc ?fl []
      \<and> ReadFull (Read ?w) 1024 [] = Some ([], Some EOF, [])"
    by (simp add: pipe_world_reaches)
  from T [THEN conjunct1, THEN mp, OF pre] obtain err cs' new bs where
    l: "Run_loop ?w ?sc [Send Open] [] = Some (err, cs', [] @ new)"
    and cs': "cs' = [Send Open] @ frame_calls bs"
    and ok: "err = None \<longrightarrow> bs = map fst ?fl \<and> sends_ok (Send_err ?w) [Send Open] (frame_calls bs)"
    and bad: "\<forall>e. err = Some e \<longrightarrow>
                 bs \<noteq> [] \<and> sends_ok (Send_err ?w) [Send Open] (frame_calls (butlast bs))
                 \<and> Send_err ?w ([Send Open] @ frame_calls (butlast bs)) (Chunk (last bs)) = Some e"
    and log: "new = map (\<lambda>f. (length (fst f), snd f)) (take (length bs) ?fl)
                     @ (if err = None then [(0, Some EOF)] else [])"
    by (elim exE conjE) (rule that, assumption+)
  from bad never have e: "err = None"
    by (cases err) simp_all
  with ok have bs: "bs = [[97, 98, 99]]" by simp
  from l e bs cs' log have 3: "Run_loop ?w ?sc [Send Open] []
     = Some (None, [Send Open, Send (Chunk [97, 98, 99])],
             [(3, Some ErrUnexpectedEOF), (0, Some EOF)])"
    by (simp add: frame_calls_def)
  have sf: "spec_frames 1024 [97, 98, 99] = [[97, 98, 99 :: byte]]"
    by (simp add: spec_frames_Cons spec_frames_Nil)
  from T [THEN conjunct2] d have 4: "\<exists>fl s1 s2. fills_from script_Read ?sc fl s1
         \<and> map fst fl = [[97, 98, 99]]
         \<and> ReadFull script_Read 1024 s1 = Some ([], Some EOF, s2)"
    unfolding pipe_world_reaches(5) sf by blast
  from ff rf2 3 4 show ?thesis by (intro conjI)
qed

text \<open>
  The claim that the loop is left only after a fill of zero bytes fails: on a stream that
  breaks after Open, the loop is left by \<^verbatim>\<open>return 1\<close> after its first fill, which returned
  2 bytes.
\<close>

theorem loop_left_by_return:
  "Run_loop (no_chunks_world [([104, 105], None)]) [([104, 105], None)] [Send Open] []
     = Some (Some EOF, [Send Open, Send (Chunk [104, 105])], [(2, Some ErrUnexpectedEOF)])"
  by code_simp

text \<open>
  Claim C9. Whatever the reader and the stream do, a run that returns has sent no empty
  Chunk frame: every Chunk among its calls carries at least one byte.
\<close>

theorem no_empty_Chunk:
  "Run w args = Some out \<Longrightarrow>
   Send (Chunk []) \<notin> set (calls out) \<and> (\<forall>b \<in> set (payloads (calls out)). 1 \<le> length b)"
  using Run_invariant [of w args out]
  by (auto simp: chunks_ok_def set_payloads Suc_le_eq)

text \<open>
  A pipe whose reads return no byte and no error before and after its one byte: the only
  Chunk has one byte.
\<close>

theorem no_empty_Chunk_witness:
  "Run (pipe_world [([], None), ([97], None), ([], None)]) []
     = Some \<lparr>status = 0, stderr = [], ui_Output = [''Server data restored.''],
             calls = [Send Open, Send (Chunk [97]), CloseAndRecv], closed = False,
             fills = [(1, Some ErrUnexpectedEOF), (0, Some EOF)]\<rparr>
   \<and> Send (Chunk []) \<notin> set [Send Open, Send (Chunk [97]), CloseAndRecv]"
proof -
  have ev: "Run (pipe_world [([], None), ([97], None), ([], None)]) []
     = Some \<lparr>status = 0, stderr = [], ui_Output = [''Server data restored.''],
             calls = [Send Open, Send (Chunk [97]), CloseAndRecv], closed = False,
             fills = [(1, Some ErrUnexpectedEOF), (0, Some EOF)]\<rparr>"
    by code_simp
  from no_empty_Chunk [OF ev] ev show ?thesis
    by simp
qed

section \<open>Properties of the environment mapping\<close>

text \<open>
  Claim C5. For every configuration \<open>c\<close>, the map \<open>Env c\<close> binds DEVFLOW_DEPLOYMENT_ID to the
  identity of \<open>c\<close>. With an empty server address it holds the server-disabled marker and
  neither the server address nor the insecure marker. With a non-empty server address it
  binds DEVFLOW_SERVER_ADDR to that address and holds the insecure marker exactly when
  \<open>ServerInsecure c\<close> is set. The disabled marker and the server address never occur
  together, and the map has no other key than these four.
\<close>

theorem Env_variables:
  "Env c ''DEVFLOW_DEPLOYMENT_ID'' = Some (Id' c)
   \<and> (ServerAddr c = '''' \<longrightarrow>
        ''DEVFLOW_SERVER_DISABLE'' \<in> dom (Env c)
        \<and> ''DEVFLOW_SERVER_ADDR'' \<notin> dom (Env c)
        \<and> ''DEVFLOW_SERVER_INSECURE'' \<notin> dom (Env c))
   \<and> (ServerAddr c \<noteq> '''' \<longrightarrow>
        Env c ''DEVFLOW_SERVER_ADDR'' = Some (ServerAddr c)
        \<and> (''DEVFLOW_SERVER_INSECURE'' \<in> dom (Env c) \<longleftrightarrow> ServerInsecure c))
   \<and> \<not> (''DEVFLOW_SERVER_DISABLE'' \<in> dom (Env c) \<and> ''DEVFLOW_SERVER_ADDR'' \<in> dom (Env c))
   \<and> dom (Env c) \<subseteq> {''DEVFLOW_DEPLOYMENT_ID'', ''DEVFLOW_SERVER_DISABLE'',
                       ''DEVFLOW_SERVER_ADDR'', ''DEVFLOW_SERVER_INSECURE''}"
  by (auto simp: Env_def Let_def dom_def)

theorem Env_variables_witness:
  "(ServerAddr \<lparr>Id' = ''d1'', ServerAddr = '''', ServerInsecure = True\<rparr> = ''''
    \<and> Env \<lparr>Id' = ''d1'', ServerAddr = '''', ServerInsecure = True\<rparr> ''DEVFLOW_DEPLOYMENT_ID''
        = Some ''d1''
    \<and> ''DEVFLOW_SERVER_DISABLE''
        \<in> dom (Env \<lparr>Id' = ''d1'', ServerAddr = '''', ServerInsecure = True\<rparr>)
    \<and> ''DEVFLOW_SERVER_INSECURE''
        \<notin> dom (Env \<lparr>Id' = ''d1'', ServerAddr = '''', ServerInsecure = True\<rparr>))
   \<and> (ServerAddr \<lparr>Id' = ''d2'', ServerAddr = ''10.0.0.1:9701'', ServerInsecure = True\<rparr> \<noteq> ''''
    \<and> Env \<lparr>Id' = ''d2'', ServerAddr = ''10.0.0.1:9701'', ServerInsecure = True\<rparr>
          ''DEVFLOW_SERVER_ADDR'' = Some ''10.0.0.1:9701''
    \<and> ''DEVFLOW_SERVER_INSECURE''
        \<in> dom (Env \<lparr>Id' = ''d2'', ServerAddr = ''10.0.0.1:9701'', ServerInsecure = True\<rparr>)
    \<and> ''DEVFLOW_SERVER_DISABLE''
        \<notin> dom (Env \<lparr>Id' = ''d2'', ServerAddr = ''10.0.0.1:9701'', ServerInsecure = True\<rparr>))"
  using Env_variables [of "\<lparr>Id' = ''d1'', ServerAddr = '''', ServerInsecure = True\<rparr>"]
        Env_variables [of "\<lparr>Id' = ''d2'', ServerAddr = ''10.0.0.1:9701'', ServerInsecure = True\<rparr>"]
  by (auto simp: dom_def)

text \<open>
  Claim C10. In the map \<open>Env c\<close>, DEVFLOW_SERVER_DISABLE and DEVFLOW_SERVER_INSECURE are bound,
  whenever they are present, to the string "1"; DEVFLOW_DEPLOYMENT_ID is present for every
  configuration, and bound to the empty string when the identity is the empty string.
\<close>

theorem Env_markers:
  "(\<forall>v. Env c ''DEVFLOW_SERVER_DISABLE'' = Some v \<longrightarrow> v = ''1'')
   \<and> (\<forall>v. Env c ''DEVFLOW_SERVER_INSECURE'' = Some v \<longrightarrow> v = ''1'')
   \<and> ''DEVFLOW_DEPLOYMENT_ID'' \<in> dom (Env c)
   \<and> (Id' c = '''' \<longrightarrow> Env c ''DEVFLOW_DEPLOYMENT_ID'' = Some '''')"
  by (simp add: Env_def Let_def dom_def)

theorem Env_markers_witness:
  "Env \<lparr>Id' = '''', ServerAddr = '''', ServerInsecure = False\<rparr> ''DEVFLOW_SERVER_DISABLE''
     = Some ''1''
   \<and> Env \<lparr>Id' = '''', ServerAddr = '''', ServerInsecure = False\<rparr> ''DEVFLOW_DEPLOYMENT_ID''
     = Some ''''
   \<and> Env \<lparr>Id' = '''', ServerAddr = ''srv:1'', ServerInsecure = True\<rparr> ''DEVFLOW_SERVER_INSECURE''
     = Some ''1''"
proof -
  let ?c1 = "\<lparr>Id' = '''', ServerAddr = '''', ServerInsecure = False\<rparr>"
  let ?c2 = "\<lparr>Id' = '''', ServerAddr = ''srv:1'', ServerInsecure = True\<rparr>"
  have d: "\<exists>v. Env ?c1 ''DEVFLOW_SERVER_DISABLE'' = Some v"
    by (simp add: Env_def)
  have i: "\<exists>v. Env ?c2 ''DEVFLOW_SERVER_INSECURE'' = Some v"
    by (simp add: Env_def)
  have n: "Id' ?c1 = ''''"
    by simp
  from d i n Env_markers [of ?c1] Env_markers [of ?c2] show ?thesis
    by auto
qed

end
